theory Spec2Isabelle
  imports Main "HOL-Library.Sublist" "HOL-Library.AList"
begin

section \<open>JSON-Patch with extended operations: values, store and host primitives\<close>

text \<open>
  The library works on live JavaScript values and mutates them in place, so the embedding
  keeps an explicit store.  A value is a primitive or a reference into the store; a store
  cell is an array (its elements and its named properties) or an object (its own
  properties in enumeration order).  A fresh cell is allocated at the end of the store,
  so the addresses below \<open>length h\<close> are exactly the cells that exist in \<open>h\<close>.

  A cell holds own properties.  A read of a name that is not one of them follows the
  prototype chain, and what is found there is the host's: \<open>inherited\<close> of the record
  \<open>host\<close>.  In a plain object the name \<open>constructor\<close> leads to the host's \<open>Object\<close>
  function and \<open>__proto__\<close> to its \<open>Object.prototype\<close>; such objects are cells of the
  store like any other, so a write to them stays.  A reference to a function object is
  \<open>Fun\<close>: its \<open>typeof\<close> is not \<open>object\<close>, and the JSON round trip leaves it out.

  Boundaries of the embedding:
  \<^item> a number is carried as an integer or as \<open>NaN\<close>: the library never computes with a
    document's numbers, it only compares, copies and tests them;
  \<^item> an array hole reads as \<open>Undefined\<close> and is stored as such;
  \<^item> the numeric conversions of the host that depend on its literal grammar and on
    floating-point rounding are parameters of the model (record \<open>host\<close>).
\<close>

datatype val = Undefined | Null | Bool bool | Num int | NaN | Str string | Ref nat | Fun nat

datatype hobj = Arr "val list" "(string \<times> val) list" | Obj "(string \<times> val) list"

type_synonym heap = "hobj list"

text \<open>A property key as the dispatcher holds it: a path component (a string), an array
  index it computed (a number), or \<open>undefined\<close> when the component is missing.\<close>

datatype key = KUndef | KStr string | KNum int

datatype errname =
    SEQUENCE_NOT_AN_ARRAY
  | OPERATION_NOT_AN_OBJECT
  | OPERATION_OP_INVALID
  | OPERATION_X_ARGS_NOT_ARRAY
  | OPERATION_X_OP_INVALID
  | OPERATION_X_CONFIG_INVALID
  | OPERATION_X_ID_INVALID
  | OPERATION_X_AMBIGUOUS_REMOVAL
  | OPERATION_X_OPERATOR_EXCEPTION
  | OPERATION_PATH_INVALID
  | OPERATION_FROM_REQUIRED
  | OPERATION_VALUE_REQUIRED
  | OPERATION_VALUE_CANNOT_CONTAIN_UNDEFINED
  | OPERATION_PATH_CANNOT_ADD
  | OPERATION_PATH_UNRESOLVABLE
  | OPERATION_FROM_UNRESOLVABLE
  | OPERATION_PATH_ILLEGAL_ARRAY_INDEX
  | OPERATION_VALUE_OUT_OF_BOUNDS
  | TEST_OPERATION_FAILED

text \<open>
  What can be thrown.  \<open>JsonPatchError name index\<close> is the library's own error class
  (its message, operation and tree payloads are not modelled); \<open>TypeError\<close> and
  \<open>RangeError\<close> are the host's, the former also thrown by the library with
  \<open>PROTO_ERROR_MSG\<close>; \<open>UserError\<close> is whatever a registered callback throws.
\<close>

datatype error =
    JsonPatchError errname "nat option"
  | TypeError string
  | RangeError string
  | UserError string

definition PROTO_ERROR_MSG :: string where
  "PROTO_ERROR_MSG = ''JSON-Patch: modifying `__proto__` or `constructor/prototype` prop is banned for security reasons, if this was on purpose, please set `banPrototypeModifications` flag false and pass it to this function. More info in fast-json-patch README''"

subsection \<open>Operations and results\<close>

text \<open>
  An operation object.  \<open>path\<close>, \<open>from\<close> and \<open>xid\<close> may be absent; \<open>value\<close>, \<open>args\<close> and
  \<open>resolve\<close> are values (\<open>Undefined\<close> when absent).
\<close>

record operation =
  op :: string
  path :: "string option"
  from_path :: "string option"
  op_value :: val
  xid :: val
  args :: val
  resolve :: val

text \<open>
  The object an operation returns.  \<open>value_out\<close> is the \<open>value\<close> property of the
  operation object after the call: \<open>_get\<close> assigns it, nothing else does.
\<close>

record op_result =
  newDocument :: val
  removed :: val
  test :: "bool option"
  index :: "key option"
  value_out :: val

definition result_of :: "operation \<Rightarrow> val \<Rightarrow> op_result" where
  "result_of operation doc =
     \<lparr>newDocument = doc, removed = Undefined, test = None, index = None,
      value_out = op_value operation\<rparr>"

text \<open>An outcome is what is thrown or what is returned, and the store afterwards.  A
  member of the operation tables is called as \<open>f.call(operation, obj, key, document)\<close>.\<close>

type_synonym outcome = "(error + op_result) \<times> heap"

type_synonym opfun = "heap \<Rightarrow> operation \<Rightarrow> val \<Rightarrow> key \<Rightarrow> val \<Rightarrow> outcome"

subsection \<open>Strings\<close>

text \<open>\<open>s.indexOf(p)\<close>: the first position where \<open>p\<close> occurs, or \<open>-1\<close>.\<close>

fun indexOf :: "string \<Rightarrow> string \<Rightarrow> int" where
  "indexOf [] p = (if p = [] then 0 else -1)"
| "indexOf (c # cs) p =
     (if prefix p (c # cs) then 0
      else (let r = indexOf cs p in if r = -1 then -1 else r + 1))"

text \<open>\<open>s.split('/')\<close> and \<open>xs.join('/')\<close>.\<close>

fun split_slash :: "string \<Rightarrow> string list" where
  "split_slash [] = [[]]"
| "split_slash (c # cs) =
     (if c = CHR ''/'' then [] # split_slash cs
      else (case split_slash cs of [] \<Rightarrow> [[c]] | w # ws \<Rightarrow> (c # w) # ws))"

fun join_slash :: "string list \<Rightarrow> string" where
  "join_slash [] = []"
| "join_slash [w] = w"
| "join_slash (w # ws) = w @ ''/'' @ join_slash ws"

text \<open>\<open>isInteger\<close> of helpers.ts: every character code is between 48 and 57.\<close>

fun isInteger :: "string \<Rightarrow> bool" where
  "isInteger [] = True"
| "isInteger (c # cs) =
     (if (48::nat) \<le> of_char c \<and> of_char c \<le> (57::nat) then isInteger cs else False)"

text \<open>\<open>unescapePathComponent\<close>: first every \<open>~1\<close> becomes \<open>/\<close>, then every \<open>~0\<close>
  becomes \<open>~\<close>.\<close>

fun replace_tilde :: "char \<Rightarrow> char \<Rightarrow> string \<Rightarrow> string" where
  "replace_tilde d r (a # b # cs) =
     (if a = CHR ''~'' \<and> b = d then r # replace_tilde d r cs
      else a # replace_tilde d r (b # cs))"
| "replace_tilde d r cs = cs"

definition unescapePathComponent :: "string \<Rightarrow> string" where
  "unescapePathComponent p = replace_tilde CHR ''0'' CHR ''~'' (replace_tilde CHR ''1'' CHR ''/'' p)"

text \<open>Decimal rendering of a number (\<open>String(n)\<close>, \<open>n.toString(10)\<close>) and the value of
  a string of digits.\<close>

fun digits_of :: "nat \<Rightarrow> string" where
  "digits_of n =
     (if n < 10 then [char_of (48 + n)]
      else digits_of (n div 10) @ [char_of (48 + n mod 10)])"

declare digits_of.simps [simp del]

definition string_of_int :: "int \<Rightarrow> string" where
  "string_of_int i = (if i < 0 then CHR ''-'' # digits_of (nat (- i)) else digits_of (nat i))"

definition digits_val :: "string \<Rightarrow> nat" where
  "digits_val s = foldl (\<lambda>acc c. acc * 10 + (of_char c - 48)) 0 s"

text \<open>\<open>String(key)\<close> for a key.\<close>

definition key_string :: "key \<Rightarrow> string" where
  "key_string k = (case k of KUndef \<Rightarrow> ''undefined'' | KStr s \<Rightarrow> s | KNum n \<Rightarrow> string_of_int n)"

subsection \<open>The host\<close>

text \<open>
  \<open>~~x\<close> is the host's \<open>ToInt32(ToNumber(x))\<close>.  On a number it wraps to a signed 32-bit
  value.  On a string of digits whose value is below \<open>2^53\<close> the conversion to a number is
  exact; on the empty string it is 0.  Every other string goes through the host's numeric
  literal grammar and floating-point rounding: \<open>int32_of_string\<close>.  An assignment to the
  \<open>length\<close> of an array converts the assigned value likewise: \<open>array_length_of\<close> gives
  the new length, or \<open>None\<close> where the host throws a RangeError.

  \<open>inherited h obj name\<close> is the value of \<open>obj[name]\<close> when the store holds no own
  property \<open>name\<close> for \<open>obj\<close>: what the prototype chain of \<open>obj\<close> gives (for a host object
  also its built-in members), \<open>Undefined\<close> when there is nothing.  \<open>set_proto h obj v\<close> is
  the assignment \<open>obj.__proto__ = v\<close> when \<open>__proto__\<close> is not an own property: the setter
  inherited from \<open>Object.prototype\<close> runs.  \<open>table_member name\<close> is the member \<open>name\<close> that
  the two operation tables, plain objects, inherit (\<open>toString\<close>, \<open>constructor\<close>, ...),
  as the function of the call \<open>member.call(operation, obj, key, document)\<close>, its returned
  value seen through the properties the library reads (for a member that cannot be
  called, the function that throws the host's TypeError); \<open>None\<close> when the tables inherit
  nothing of that name.
\<close>

record host =
  int32_of_string :: "string \<Rightarrow> int"
  array_length_of :: "heap \<Rightarrow> val \<Rightarrow> nat option"
  inherited :: "heap \<Rightarrow> val \<Rightarrow> string \<Rightarrow> val"
  set_proto :: "heap \<Rightarrow> val \<Rightarrow> val \<Rightarrow> error + heap"
  table_member :: "string \<Rightarrow> opfun option"

definition wrap32 :: "int \<Rightarrow> int" where
  "wrap32 n = (let m = n mod 2 ^ 32 in if m < 2 ^ 31 then m else m - 2 ^ 32)"

definition toInt32 :: "host \<Rightarrow> key \<Rightarrow> int" where
  "toInt32 H k =
     (case k of
        KUndef \<Rightarrow> 0
      | KNum n \<Rightarrow> wrap32 n
      | KStr s \<Rightarrow>
          (if s = [] then 0
           else if isInteger s \<and> int (digits_val s) < 2 ^ 53 then wrap32 (int (digits_val s))
           else int32_of_string H s))"

subsection \<open>The registry of extended operations\<close>

text \<open>\<open>isValidExtendedOpId\<close> of helpers.ts.\<close>

definition isValidExtendedOpId :: "val \<Rightarrow> bool" where
  "isValidExtendedOpId x =
     (case x of Str s \<Rightarrow> length s \<ge> 3 \<and> indexOf s ''x-'' = 0 | _ \<Rightarrow> False)"

subsection \<open>Property access in the store\<close>

text \<open>A property name is an array index when it is the canonical decimal rendering of a
  number below \<open>2^32 - 1\<close>; so \<open>''1''\<close> is an index and \<open>''01''\<close> is a named property.\<close>

definition array_index :: "string \<Rightarrow> nat option" where
  "array_index s =
     (if s \<noteq> [] \<and> isInteger s \<and> digits_of (digits_val s) = s
         \<and> int (digits_val s) < 2 ^ 32 - 1
      then Some (digits_val s) else None)"

definition lookup :: "(string \<times> val) list \<Rightarrow> string \<Rightarrow> val" where
  "lookup props name = (case map_of props name of None \<Rightarrow> Undefined | Some v \<Rightarrow> v)"

definition cell :: "heap \<Rightarrow> nat \<Rightarrow> hobj option" where
  "cell h a = (if a < length h then Some (h ! a) else None)"

definition isArray :: "heap \<Rightarrow> val \<Rightarrow> bool" where
  "isArray h v =
     (case v of Ref a \<Rightarrow> (case cell h a of Some (Arr els props) \<Rightarrow> True | _ \<Rightarrow> False) | _ \<Rightarrow> False)"

text \<open>\<open>arr.length\<close> of an array (0 on anything else: it is only read after \<open>isArray\<close>).\<close>

definition arr_length :: "heap \<Rightarrow> val \<Rightarrow> nat" where
  "arr_length h v =
     (case v of Ref a \<Rightarrow> (case cell h a of Some (Arr els props) \<Rightarrow> length els | _ \<Rightarrow> 0) | _ \<Rightarrow> 0)"

text \<open>\<open>!v\<close> is \<open>\<not> truthy v\<close>; \<open>a === b\<close> is \<open>strict_eq a b\<close>: references are equal when
  they are the same cell, and \<open>NaN\<close> is not equal to itself.\<close>

definition truthy :: "val \<Rightarrow> bool" where
  "truthy v =
     (case v of Undefined \<Rightarrow> False | Null \<Rightarrow> False | Bool b \<Rightarrow> b | Num n \<Rightarrow> n \<noteq> 0
      | NaN \<Rightarrow> False | Str s \<Rightarrow> s \<noteq> [] | Ref a \<Rightarrow> True | Fun a \<Rightarrow> True)"

definition strict_eq :: "val \<Rightarrow> val \<Rightarrow> bool" where
  "strict_eq a b = (a = b \<and> a \<noteq> NaN)"

text \<open>\<open>typeof v === 'object'\<close>: a reference to an object or an array, or \<open>null\<close>.\<close>

definition is_object_type :: "val \<Rightarrow> bool" where
  "is_object_type v = (case v of Null \<Rightarrow> True | Ref a \<Rightarrow> True | _ \<Rightarrow> False)"

text \<open>
  \<open>obj[key]\<close> as a read.  On \<open>undefined\<close> and \<open>null\<close> the host throws.  An own property
  is read from the store: a string has its characters and its length, an array its
  elements, its length and its named properties, an object its properties.  Any other
  name is looked up in the prototype chain.
\<close>

definition own_or_inherited :: "host \<Rightarrow> heap \<Rightarrow> val \<Rightarrow> (string \<times> val) list \<Rightarrow> string \<Rightarrow> val" where
  "own_or_inherited H h obj props name =
     (case map_of props name of Some v \<Rightarrow> v | None \<Rightarrow> inherited H h obj name)"

definition cell_prop :: "host \<Rightarrow> heap \<Rightarrow> val \<Rightarrow> nat \<Rightarrow> string \<Rightarrow> error + val" where
  "cell_prop H h obj a name =
     (case cell h a of
        None \<Rightarrow> Inl (TypeError ''dangling reference'')
      | Some (Arr els props) \<Rightarrow>
          (case array_index name of
             Some i \<Rightarrow> Inr (if i < length els then els ! i else inherited H h obj name)
           | None \<Rightarrow>
               Inr (if name = ''length'' then Num (int (length els))
                    else own_or_inherited H h obj props name))
      | Some (Obj props) \<Rightarrow> Inr (own_or_inherited H h obj props name))"

definition get_prop :: "host \<Rightarrow> heap \<Rightarrow> val \<Rightarrow> key \<Rightarrow> error + val" where
  "get_prop H h obj k =
     (let name = key_string k in
      case obj of
        Undefined \<Rightarrow> Inl (TypeError ''Cannot read properties of undefined'')
      | Null \<Rightarrow> Inl (TypeError ''Cannot read properties of null'')
      | Str s \<Rightarrow>
          (case array_index name of
             Some i \<Rightarrow> Inr (if i < length s then Str [s ! i] else inherited H h obj name)
           | None \<Rightarrow>
               Inr (if name = ''length'' then Num (int (length s)) else inherited H h obj name))
      | Ref a \<Rightarrow> cell_prop H h obj a name
      | Fun a \<Rightarrow> cell_prop H h obj a name
      | _ \<Rightarrow> Inr (inherited H h obj name))"

text \<open>Writing an element at or beyond the end of an array leaves holes in between.\<close>

definition set_index :: "val list \<Rightarrow> nat \<Rightarrow> val \<Rightarrow> val list" where
  "set_index els i v =
     (if i < length els then els[i := v]
      else els @ replicate (i - length els) Undefined @ [v])"

definition resize :: "val list \<Rightarrow> nat \<Rightarrow> val list" where
  "resize els n = (if n \<le> length els then take n els else els @ replicate (n - length els) Undefined)"

definition new_length :: "host \<Rightarrow> heap \<Rightarrow> val \<Rightarrow> nat option" where
  "new_length H h v =
     (case v of
        Num n \<Rightarrow> (if 0 \<le> n \<and> n < 2 ^ 32 then Some (nat n) else None)
      | Null \<Rightarrow> Some 0
      | Bool b \<Rightarrow> Some (if b then 1 else 0)
      | Undefined \<Rightarrow> None
      | NaN \<Rightarrow> None
      | _ \<Rightarrow> array_length_of H h v)"

text \<open>
  \<open>obj[key] = v\<close>.  The module runs in strict mode, so a write on a primitive throws.
  The name \<open>__proto__\<close>, unless it is an own property, reaches the inherited setter.
\<close>

definition via_setter :: "(string \<times> val) list \<Rightarrow> string \<Rightarrow> bool" where
  "via_setter props name = (name = ''__proto__'' \<and> map_of props name = None)"

definition cell_write :: "host \<Rightarrow> heap \<Rightarrow> val \<Rightarrow> nat \<Rightarrow> string \<Rightarrow> val \<Rightarrow> error + heap" where
  "cell_write H h obj a name v =
     (case cell h a of
        None \<Rightarrow> Inl (TypeError ''dangling reference'')
      | Some (Arr els props) \<Rightarrow>
          (case array_index name of
             Some i \<Rightarrow> Inr (h[a := Arr (set_index els i v) props])
           | None \<Rightarrow>
               (if name = ''length'' then
                  (case new_length H h v of
                     None \<Rightarrow> Inl (RangeError ''Invalid array length'')
                   | Some n \<Rightarrow> Inr (h[a := Arr (resize els n) props]))
                else if via_setter props name then set_proto H h obj v
                else Inr (h[a := Arr els (AList.update name v props)])))
      | Some (Obj props) \<Rightarrow>
          (if via_setter props name then set_proto H h obj v
           else Inr (h[a := Obj (AList.update name v props)])))"

definition set_prop :: "host \<Rightarrow> heap \<Rightarrow> val \<Rightarrow> key \<Rightarrow> val \<Rightarrow> error + heap" where
  "set_prop H h obj k v =
     (let name = key_string k in
      case obj of
        Ref a \<Rightarrow> cell_write H h obj a name v
      | Fun a \<Rightarrow> cell_write H h obj a name v
      | Undefined \<Rightarrow> Inl (TypeError ''Cannot set properties of undefined'')
      | Null \<Rightarrow> Inl (TypeError ''Cannot set properties of null'')
      | _ \<Rightarrow> Inl (TypeError ''Cannot create property on a primitive''))"

text \<open>\<open>delete obj[key]\<close>, in strict mode.\<close>

definition cell_delete :: "heap \<Rightarrow> nat \<Rightarrow> string \<Rightarrow> error + heap" where
  "cell_delete h a name =
     (case cell h a of
        None \<Rightarrow> Inl (TypeError ''dangling reference'')
      | Some (Arr els props) \<Rightarrow>
          (case array_index name of
             Some i \<Rightarrow> Inr (if i < length els then h[a := Arr (els[i := Undefined]) props] else h)
           | None \<Rightarrow>
               (if name = ''length'' then Inl (TypeError ''Cannot delete property length'')
                else Inr (h[a := Arr els (AList.delete name props)])))
      | Some (Obj props) \<Rightarrow> Inr (h[a := Obj (AList.delete name props)]))"

definition delete_prop :: "heap \<Rightarrow> val \<Rightarrow> key \<Rightarrow> error + heap" where
  "delete_prop h obj k =
     (let name = key_string k in
      case obj of
        Ref a \<Rightarrow> cell_delete h a name
      | Fun a \<Rightarrow> cell_delete h a name
      | Undefined \<Rightarrow> Inl (TypeError ''Cannot convert undefined or null to object'')
      | Null \<Rightarrow> Inl (TypeError ''Cannot convert undefined or null to object'')
      | Str s \<Rightarrow>
          (if name = ''length'' \<or> (case array_index name of Some i \<Rightarrow> i < length s | None \<Rightarrow> False)
           then Inl (TypeError ''Cannot delete property of a string'') else Inr h)
      | _ \<Rightarrow> Inr h)"

text \<open>
  \<open>arr.splice(start, deleteCount, ...items)\<close> on the elements: a negative start counts
  from the end, both arguments are clamped; the result is the new elements and the
  removed ones.
\<close>

definition splice :: "val list \<Rightarrow> int \<Rightarrow> nat \<Rightarrow> val list \<Rightarrow> val list \<times> val list" where
  "splice els start dc items =
     (let len = int (length els);
          s = nat (if start < 0 then max (len + start) 0 else min start len);
          d = min dc (length els - s)
      in (take s els @ items @ drop (s + d) els, take d (drop s els)))"

subsection \<open>Deep clone\<close>

text \<open>
  \<open>_deepClone\<close> is \<open>JSON.parse(JSON.stringify(obj))\<close> on objects.  \<open>stringify\<close> reads the
  store into a JSON value: a property that is undefined or a function is left out, an
  element that is undefined or a function and \<open>NaN\<close> become \<open>null\<close>, the named properties
  of an array are dropped.  The host throws a TypeError on a cyclic structure; a descent
  through more references than the store has cells repeats a cell, so with fuel
  \<open>length h\<close> the result \<open>None\<close> is exactly that error.  \<open>parse\<close> allocates fresh cells.
  A \<open>toJSON\<close> method, which the host would call, is outside the embedding.
\<close>

datatype json = JNull | JBool bool | JNum int | JStr string | JArr "json list" | JObj "(string \<times> json) list"

fun collect :: "'a option list \<Rightarrow> 'a list option" where
  "collect [] = Some []"
| "collect (None # xs) = None"
| "collect (Some x # xs) = (case collect xs of None \<Rightarrow> None | Some ys \<Rightarrow> Some (x # ys))"

definition left_out :: "val \<Rightarrow> bool" where
  "left_out v = (case v of Undefined \<Rightarrow> True | Fun a \<Rightarrow> True | _ \<Rightarrow> False)"

fun stringify :: "nat \<Rightarrow> heap \<Rightarrow> val \<Rightarrow> json option" where
  "stringify n h Undefined = Some JNull"
| "stringify n h Null = Some JNull"
| "stringify n h (Bool b) = Some (JBool b)"
| "stringify n h (Num i) = Some (JNum i)"
| "stringify n h NaN = Some JNull"
| "stringify n h (Str s) = Some (JStr s)"
| "stringify n h (Fun a) = Some JNull"
| "stringify 0 h (Ref a) = None"
| "stringify (Suc n) h (Ref a) =
     (case cell h a of
        None \<Rightarrow> None
      | Some (Arr els props) \<Rightarrow> map_option JArr (collect (map (stringify n h) els))
      | Some (Obj props) \<Rightarrow>
          map_option JObj
            (collect (map (\<lambda>p. map_option (Pair (fst p)) (stringify n h (snd p)))
                          (filter (\<lambda>p. \<not> left_out (snd p)) props))))"

fun parse :: "json \<Rightarrow> heap \<Rightarrow> val \<times> heap"
  and parse_list :: "json list \<Rightarrow> heap \<Rightarrow> val list \<times> heap"
  and parse_props :: "(string \<times> json) list \<Rightarrow> heap \<Rightarrow> (string \<times> val) list \<times> heap"
where
  "parse JNull h = (Null, h)"
| "parse (JBool b) h = (Bool b, h)"
| "parse (JNum i) h = (Num i, h)"
| "parse (JStr s) h = (Str s, h)"
| "parse (JArr js) h = (case parse_list js h of (vs, h1) \<Rightarrow> (Ref (length h1), h1 @ [Arr vs []]))"
| "parse (JObj ps) h = (case parse_props ps h of (qs, h1) \<Rightarrow> (Ref (length h1), h1 @ [Obj qs]))"
| "parse_list [] h = ([], h)"
| "parse_list (j # js) h =
     (case parse j h of (v, h1) \<Rightarrow> (case parse_list js h1 of (vs, h2) \<Rightarrow> (v # vs, h2)))"
| "parse_props [] h = ([], h)"
| "parse_props (p # ps) h =
     (case parse (snd p) h of (v, h1) \<Rightarrow>
        (case parse_props ps h1 of (qs, h2) \<Rightarrow> ((fst p, v) # qs, h2)))"

text \<open>\<open>_deepClone\<close> of helpers.ts: the switch on \<open>typeof obj\<close>.\<close>

definition deepClone :: "heap \<Rightarrow> val \<Rightarrow> (error + val) \<times> heap" where
  "deepClone h obj =
     (if is_object_type obj then
        (case stringify (length h) h obj of
           None \<Rightarrow> (Inl (TypeError ''Converting circular structure to JSON''), h)
         | Some j \<Rightarrow> (case parse j h of (v, h1) \<Rightarrow> (Inr v, h1)))
      else if obj = Undefined then (Inr Null, h)
      else (Inr obj, h))"

subsection \<open>Deep equality and undefined leaves\<close>

text \<open>
  The loops of \<open>_areEquals\<close> run from the last index down and leave at the first
  failure; \<open>all_true\<close> is that loop over the results in the order they are computed.
\<close>

fun all_true :: "(error + bool) list \<Rightarrow> error + bool" where
  "all_true [] = Inr True"
| "all_true (r # rs) =
     (case r of Inl e \<Rightarrow> Inl e | Inr b \<Rightarrow> (if b then all_true rs else Inr False))"

fun any_true :: "(error + bool) list \<Rightarrow> error + bool" where
  "any_true [] = Inr False"
| "any_true (r # rs) =
     (case r of Inl e \<Rightarrow> Inl e | Inr b \<Rightarrow> (if b then Inr True else any_true rs))"

text \<open>
  \<open>b.hasOwnProperty(k)\<close> is a method call on \<open>b\<close> itself: when \<open>b\<close> has an own property
  named \<open>hasOwnProperty\<close>, that property is what gets called, and a document holds no
  functions.
\<close>

definition hasOwnProperty_call :: "(string \<times> val) list \<Rightarrow> string \<Rightarrow> error + bool" where
  "hasOwnProperty_call pb k =
     (case map_of pb ''hasOwnProperty'' of
        Some v \<Rightarrow> Inl (TypeError ''b.hasOwnProperty is not a function'')
      | None \<Rightarrow> Inr (k \<in> set (map fst pb)))"

text \<open>
  \<open>_areEquals\<close> of core.mjs.  The recursion follows the store, so it carries the depth
  still available: at depth 0 the host's stack is exhausted.
\<close>

fun areEquals_depth :: "nat \<Rightarrow> heap \<Rightarrow> val \<Rightarrow> val \<Rightarrow> error + bool" where
  "areEquals_depth 0 h a b = Inl (RangeError ''Maximum call stack size exceeded'')"
| "areEquals_depth (Suc n) h a b =
     (if strict_eq a b then Inr True
      else if truthy a \<and> truthy b \<and> is_object_type a \<and> is_object_type b then
        (case (a, b) of
           (Ref x, Ref y) \<Rightarrow>
             (case (cell h x, cell h y) of
                (Some (Arr ea pa), Some (Arr eb pb)) \<Rightarrow>
                  (if length ea \<noteq> length eb then Inr False
                   else all_true (map (\<lambda>i. areEquals_depth n h (ea ! i) (eb ! i))
                                      (rev [0..<length ea])))
              | (Some (Obj pa), Some (Obj pb)) \<Rightarrow>
                  (let keys = map fst pa in
                   if length keys \<noteq> length (map fst pb) then Inr False
                   else
                     (case all_true (map (hasOwnProperty_call pb) (rev keys)) of
                        Inl e \<Rightarrow> Inl e
                      | Inr present \<Rightarrow>
                          (if \<not> present then Inr False
                           else all_true (map (\<lambda>k. areEquals_depth n h (lookup pa k) (lookup pb k))
                                              (rev keys)))))
              | (Some ca, Some cb) \<Rightarrow> Inr False
              | _ \<Rightarrow> Inl (TypeError ''dangling reference''))
         | _ \<Rightarrow> Inr False)
      else Inr (\<not> strict_eq a a \<and> \<not> strict_eq b b))"

text \<open>A recursion deeper than the number of pairs of cells repeats a pair, and then it
  never ends: the depth \<open>Suc (length h * length h)\<close> is out of reach for any other one.\<close>

definition areEquals :: "heap \<Rightarrow> val \<Rightarrow> val \<Rightarrow> error + bool" where
  "areEquals h a b = areEquals_depth (Suc (length h * length h)) h a b"

text \<open>\<open>hasUndefined\<close> of helpers.ts.\<close>

fun hasUndefined_depth :: "nat \<Rightarrow> heap \<Rightarrow> val \<Rightarrow> error + bool" where
  "hasUndefined_depth 0 h v = Inl (RangeError ''Maximum call stack size exceeded'')"
| "hasUndefined_depth (Suc n) h v =
     (if v = Undefined then Inr True
      else if truthy v then
        (case v of
           Ref a \<Rightarrow>
             (case cell h a of
                Some (Arr els props) \<Rightarrow> any_true (map (hasUndefined_depth n h) els)
              | Some (Obj props) \<Rightarrow>
                  any_true (map (\<lambda>k. hasUndefined_depth n h (lookup props k)) (map fst props))
              | None \<Rightarrow> Inl (TypeError ''dangling reference''))
         | _ \<Rightarrow> Inr False)
      else Inr False)"

definition hasUndefined :: "heap \<Rightarrow> val \<Rightarrow> error + bool" where
  "hasUndefined h v = hasUndefined_depth (Suc (length h)) h v"

subsection \<open>Handlers and the registry\<close>

text \<open>
  A registered handler is called as \<open>handler.call(operation, obj, key, document)\<close>; it may
  write to the store, throw, return \<open>undefined\<close>, or return an object with \<open>newDocument\<close>
  and \<open>removed\<close>.  A validator callback checks and may throw; it does not write.
\<close>

datatype hres = HUndefined | HResult val val

type_synonym handler = "heap \<Rightarrow> operation \<Rightarrow> val \<Rightarrow> key \<Rightarrow> val \<Rightarrow> (error + hres) \<times> heap"

type_synonym vfun = "heap \<Rightarrow> operation \<Rightarrow> nat \<Rightarrow> val \<Rightarrow> string option \<Rightarrow> error option"

record xconfig =
  x_arr :: handler
  x_obj :: handler
  x_validator :: vfun

type_synonym registry = "string \<Rightarrow> xconfig option"

definition registry_get :: "registry \<Rightarrow> val \<Rightarrow> xconfig option" where
  "registry_get reg x = (case x of Str s \<Rightarrow> reg s | _ \<Rightarrow> None)"

text \<open>\<open>useExtendedOperation\<close>, \<open>hasExtendedOperation\<close> and
  \<open>unregisterAllExtendedOperations\<close> of core.mjs.  A configuration is typed, so the
  checks that its three members are functions cannot fail.\<close>

definition useExtendedOperation :: "registry \<Rightarrow> val \<Rightarrow> xconfig \<Rightarrow> error + registry" where
  "useExtendedOperation reg x config =
     (if \<not> isValidExtendedOpId x then Inl (JsonPatchError OPERATION_X_ID_INVALID None)
      else (case x of Str s \<Rightarrow> Inr (reg(s \<mapsto> config)) | _ \<Rightarrow> Inr reg))"

definition hasExtendedOperation :: "registry \<Rightarrow> val \<Rightarrow> error + bool" where
  "hasExtendedOperation reg x =
     (if \<not> isValidExtendedOpId x then Inl (JsonPatchError OPERATION_X_ID_INVALID None)
      else Inr (case registry_get reg x of None \<Rightarrow> False | Some config \<Rightarrow> True))"

definition unregisterAllExtendedOperations :: "registry \<Rightarrow> registry" where
  "unregisterAllExtendedOperations reg = Map.empty"

subsection \<open>Grafting a handler's result back\<close>

datatype modtype = Graft | Prune

text \<open>
  The loop of \<open>_graftTree\<close> for a path of two or more components: \<open>k\<close> is the key of the
  previous round, \<open>cs\<close> the components still to visit.  It leaves with \<open>break\<close> at a graft
  point or at the second-to-last component, and then assigns.
\<close>

fun graft_loop :: "host \<Rightarrow> heap \<Rightarrow> modtype \<Rightarrow> string \<Rightarrow> string list \<Rightarrow> val \<Rightarrow> val \<Rightarrow> error + heap" where
  "graft_loop H h m k [] graft graftTgt = set_prop H h graftTgt (KStr k) graft"
| "graft_loop H h m k (c # cs) graft graftTgt =
     (case get_prop H h graft (KStr c) of
        Inl e \<Rightarrow> Inl e
      | Inr graft' \<Rightarrow>
          (case (if m = Graft then get_prop H h graftTgt (KStr c) else Inr Null) of
             Inl e \<Rightarrow> Inl e
           | Inr present \<Rightarrow>
               (if m = Graft \<and> present = Undefined then
                  (if graft' = Undefined then Inr h else set_prop H h graftTgt (KStr c) graft')
                else if length cs = 1 then set_prop H h graftTgt (KStr c) graft'
                else
                  (case get_prop H h graftTgt (KStr c) of
                     Inl e \<Rightarrow> Inl e
                   | Inr graftTgt' \<Rightarrow> graft_loop H h m c cs graft' graftTgt'))))"

text \<open>\<open>_graftTree\<close> of helpers.ts.\<close>

definition graftTree :: "host \<Rightarrow> heap \<Rightarrow> val \<Rightarrow> val \<Rightarrow> modtype \<Rightarrow> string list \<Rightarrow> error + heap" where
  "graftTree H h sourceObj targetObj m comps =
     (if length comps = 0 then Inr h
      else if length comps = 1 then
        (let graftKey = comps ! 0 in
         if m = Graft then
           (case get_prop H h sourceObj (KStr graftKey) of
              Inl e \<Rightarrow> Inl e
            | Inr v \<Rightarrow> set_prop H h targetObj (KStr graftKey) v)
         else if isArray h targetObj then
           (case targetObj of
              Ref a \<Rightarrow>
                (case cell h a of
                   Some (Arr els props) \<Rightarrow>
                     Inr (h[a := Arr (fst (splice els (toInt32 H (KStr graftKey)) 1 [])) props])
                 | _ \<Rightarrow> Inr h)
            | _ \<Rightarrow> Inr h)
         else delete_prop h targetObj (KStr graftKey))
      else graft_loop H h m [] comps sourceObj targetObj)"

section \<open>The dispatcher\<close>

text \<open>
  \<open>applyOperation\<close> calls itself: through \<open>objOps.move\<close>, \<open>objOps.copy\<close> and
  \<open>getValueByPointer\<close>, and through the validator, which checks \<open>from\<close> by a dry run of
  an internal \<open>_get\<close>.  Every function below that makes such a call takes the function to
  call as its first argument, \<open>self\<close>; the recursion is closed at the end of the section.
\<close>

datatype vmode = NoValidation | DefaultValidation | CustomValidation vfun

definition validating :: "vmode \<Rightarrow> bool" where
  "validating vm = (case vm of NoValidation \<Rightarrow> False | _ \<Rightarrow> True)"

type_synonym apply_t = "heap \<Rightarrow> val \<Rightarrow> operation \<Rightarrow> vmode \<Rightarrow> bool \<Rightarrow> bool \<Rightarrow> nat \<Rightarrow> outcome"

definition plain_op :: "string \<Rightarrow> string option \<Rightarrow> val \<Rightarrow> operation" where
  "plain_op name p v =
     \<lparr>op = name, path = p, from_path = None, op_value = v, xid = Undefined,
      args = Undefined, resolve = Undefined\<rparr>"

text \<open>\<open>getValueByPointer\<close>: the defaults of the call are no validation, mutation in place
  and the prototype guard.\<close>

definition getValueByPointer :: "apply_t \<Rightarrow> heap \<Rightarrow> val \<Rightarrow> string option \<Rightarrow> (error + val) \<times> heap" where
  "getValueByPointer self h document pointer =
     (if pointer = Some [] then (Inr document, h)
      else
        (case self h document (plain_op ''_get'' pointer Undefined) NoValidation True True 0 of
           (Inl e, h1) \<Rightarrow> (Inl e, h1)
         | (Inr r, h1) \<Rightarrow> (Inr (value_out r), h1)))"

subsection \<open>The operations applicable to an object\<close>

definition objOps_add :: "host \<Rightarrow> opfun" where
  "objOps_add H h operation ob k document =
     (case set_prop H h ob k (op_value operation) of
        Inl e \<Rightarrow> (Inl e, h)
      | Inr h1 \<Rightarrow> (Inr (result_of operation document), h1))"

definition objOps_remove :: "host \<Rightarrow> opfun" where
  "objOps_remove H h operation ob k document =
     (case get_prop H h ob k of
        Inl e \<Rightarrow> (Inl e, h)
      | Inr r \<Rightarrow>
          (case delete_prop h ob k of
             Inl e \<Rightarrow> (Inl e, h)
           | Inr h1 \<Rightarrow> (Inr ((result_of operation document)\<lparr>removed := r\<rparr>), h1)))"

definition objOps_replace :: "host \<Rightarrow> opfun" where
  "objOps_replace H h operation ob k document =
     (case get_prop H h ob k of
        Inl e \<Rightarrow> (Inl e, h)
      | Inr r \<Rightarrow>
          (case set_prop H h ob k (op_value operation) of
             Inl e \<Rightarrow> (Inl e, h)
           | Inr h1 \<Rightarrow> (Inr ((result_of operation document)\<lparr>removed := r\<rparr>), h1)))"

definition objOps_move :: "apply_t \<Rightarrow> opfun" where
  "objOps_move self h operation ob k document =
     (case getValueByPointer self h document (path operation) of
        (Inl e, h1) \<Rightarrow> (Inl e, h1)
      | (Inr r0, h1) \<Rightarrow>
          (case (if truthy r0 then deepClone h1 r0 else (Inr r0, h1)) of
             (Inl e, h2) \<Rightarrow> (Inl e, h2)
           | (Inr r, h2) \<Rightarrow>
               (case self h2 document (plain_op ''remove'' (from_path operation) Undefined)
                       NoValidation True True 0 of
                  (Inl e, h3) \<Rightarrow> (Inl e, h3)
                | (Inr res, h3) \<Rightarrow>
                    (case self h3 document (plain_op ''add'' (path operation) (removed res))
                            NoValidation True True 0 of
                       (Inl e, h4) \<Rightarrow> (Inl e, h4)
                     | (Inr res', h4) \<Rightarrow>
                         (Inr ((result_of operation document)\<lparr>removed := r\<rparr>), h4)))))"

definition objOps_copy :: "apply_t \<Rightarrow> opfun" where
  "objOps_copy self h operation ob k document =
     (case getValueByPointer self h document (from_path operation) of
        (Inl e, h1) \<Rightarrow> (Inl e, h1)
      | (Inr valueToCopy, h1) \<Rightarrow>
          (case deepClone h1 valueToCopy of
             (Inl e, h2) \<Rightarrow> (Inl e, h2)
           | (Inr c, h2) \<Rightarrow>
               (case self h2 document (plain_op ''add'' (path operation) c)
                       NoValidation True True 0 of
                  (Inl e, h3) \<Rightarrow> (Inl e, h3)
                | (Inr res, h3) \<Rightarrow> (Inr (result_of operation document), h3))))"

definition objOps_test :: "host \<Rightarrow> opfun" where
  "objOps_test H h operation ob k document =
     (case get_prop H h ob k of
        Inl e \<Rightarrow> (Inl e, h)
      | Inr v \<Rightarrow>
          (case areEquals h v (op_value operation) of
             Inl e \<Rightarrow> (Inl e, h)
           | Inr b \<Rightarrow> (Inr ((result_of operation document)\<lparr>test := Some b\<rparr>), h)))"

definition objOps_get :: "host \<Rightarrow> opfun" where
  "objOps_get H h operation ob k document =
     (case get_prop H h ob k of
        Inl e \<Rightarrow> (Inl e, h)
      | Inr v \<Rightarrow> (Inr ((result_of operation document)\<lparr>value_out := v\<rparr>), h))"

definition objOps :: "apply_t \<Rightarrow> host \<Rightarrow> string \<Rightarrow> opfun option" where
  "objOps self H name =
     (if name = ''add'' then Some (objOps_add H)
      else if name = ''remove'' then Some (objOps_remove H)
      else if name = ''replace'' then Some (objOps_replace H)
      else if name = ''move'' then Some (objOps_move self)
      else if name = ''copy'' then Some (objOps_copy self)
      else if name = ''test'' then Some (objOps_test H)
      else if name = ''_get'' then Some (objOps_get H)
      else table_member H name)"

subsection \<open>The operations applicable to an array\<close>

text \<open>Both \<open>splice\<close> calls act on a value that passed \<open>Array.isArray\<close>.\<close>

definition arr_splice :: "heap \<Rightarrow> val \<Rightarrow> int \<Rightarrow> nat \<Rightarrow> val list \<Rightarrow> (error + val list) \<times> heap" where
  "arr_splice h ar start dc items =
     (case ar of
        Ref a \<Rightarrow>
          (case cell h a of
             Some (Arr els props) \<Rightarrow>
               (case splice els start dc items of
                  (els', gone) \<Rightarrow> (Inr gone, h[a := Arr els' props]))
           | _ \<Rightarrow> (Inl (TypeError ''arr.splice is not a function''), h))
      | _ \<Rightarrow> (Inl (TypeError ''arr.splice is not a function''), h))"

definition arrOps_add :: "host \<Rightarrow> opfun" where
  "arrOps_add H h operation ar i document =
     (if isInteger (key_string i) then
        (case arr_splice h ar (toInt32 H i) 0 [op_value operation] of
           (Inl e, h1) \<Rightarrow> (Inl e, h1)
         | (Inr gone, h1) \<Rightarrow> (Inr ((result_of operation document)\<lparr>index := Some i\<rparr>), h1))
      else
        (case set_prop H h ar i (op_value operation) of
           Inl e \<Rightarrow> (Inl e, h)
         | Inr h1 \<Rightarrow> (Inr ((result_of operation document)\<lparr>index := Some i\<rparr>), h1)))"

definition arrOps_remove :: "host \<Rightarrow> opfun" where
  "arrOps_remove H h operation ar i document =
     (case arr_splice h ar (toInt32 H i) 1 [] of
        (Inl e, h1) \<Rightarrow> (Inl e, h1)
      | (Inr removedList, h1) \<Rightarrow>
          (Inr ((result_of operation document)
                  \<lparr>removed := (case removedList of [] \<Rightarrow> Undefined | r # rs \<Rightarrow> r)\<rparr>), h1))"

definition arrOps_replace :: "host \<Rightarrow> opfun" where
  "arrOps_replace H h operation ar i document =
     (case get_prop H h ar i of
        Inl e \<Rightarrow> (Inl e, h)
      | Inr r \<Rightarrow>
          (case set_prop H h ar i (op_value operation) of
             Inl e \<Rightarrow> (Inl e, h)
           | Inr h1 \<Rightarrow> (Inr ((result_of operation document)\<lparr>removed := r\<rparr>), h1)))"

definition arrOps :: "apply_t \<Rightarrow> host \<Rightarrow> string \<Rightarrow> opfun option" where
  "arrOps self H name =
     (if name = ''add'' then Some (arrOps_add H)
      else if name = ''remove'' then Some (arrOps_remove H)
      else if name = ''replace'' then Some (arrOps_replace H)
      else if name = ''move'' then Some (objOps_move self)
      else if name = ''copy'' then Some (objOps_copy self)
      else if name = ''test'' then Some (objOps_test H)
      else if name = ''_get'' then Some (objOps_get H)
      else table_member H name)"

subsection \<open>The validator\<close>

text \<open>\<open>objOps[operation.op]\<close> is truthy: the name is one of the seven own members of the
  table, or of a member the table inherits.\<close>

definition is_rfc_op :: "host \<Rightarrow> string \<Rightarrow> bool" where
  "is_rfc_op H name =
     (name \<in> set [''add'', ''remove'', ''replace'', ''move'', ''copy'', ''test'', ''_get'']
      \<or> (case table_member H name of None \<Rightarrow> False | Some f \<Rightarrow> True))"

definition takes_value :: "string \<Rightarrow> bool" where
  "takes_value name = (name = ''add'' \<or> name = ''replace'' \<or> name = ''test'')"

definition thrown :: "errname \<Rightarrow> nat \<Rightarrow> error" where
  "thrown name i = JsonPatchError name (Some i)"

text \<open>
  \<open>validator\<close> of core.mjs.  The result is what it throws, or \<open>None\<close> when it returns.
  An operation is a typed record, so the test that it is an object cannot fail.  The
  argument \<open>check\<close> is the call \<open>validate([existingValue], document)\<close>: it returns an error
  value or nothing (\<open>Inr\<close>), or throws (\<open>Inl\<close>).
\<close>

definition validator_with ::
    "host \<Rightarrow> (heap \<Rightarrow> operation list \<Rightarrow> val \<Rightarrow> error + error option) \<Rightarrow> registry \<Rightarrow> vfun" where
  "validator_with H check reg h operation i document existingPathFragment =
     (if op operation = ''x'' then
        (if \<not> isValidExtendedOpId (xid operation) then Some (thrown OPERATION_X_ID_INVALID i)
         else
           (case registry_get reg (xid operation) of
              None \<Rightarrow> Some (thrown OPERATION_X_OP_INVALID i)
            | Some xConfig \<Rightarrow>
                (case path operation of
                   None \<Rightarrow> Some (thrown OPERATION_PATH_INVALID i)
                 | Some p \<Rightarrow>
                     (if indexOf p ''/'' \<noteq> 0 \<and> length p > 0 then Some (thrown OPERATION_PATH_INVALID i)
                      else if p = ''/'' then Some (thrown OPERATION_PATH_UNRESOLVABLE i)
                      else if args operation \<noteq> Undefined \<and> \<not> isArray h (args operation)
                        then Some (thrown OPERATION_X_ARGS_NOT_ARRAY i)
                      else x_validator xConfig h operation i document existingPathFragment))))
      else if \<not> is_rfc_op H (op operation) then Some (thrown OPERATION_OP_INVALID i)
      else
        (case path operation of
           None \<Rightarrow> Some (thrown OPERATION_PATH_INVALID i)
         | Some p \<Rightarrow>
             (if indexOf p ''/'' \<noteq> 0 \<and> length p > 0 then Some (thrown OPERATION_PATH_INVALID i)
              else if (op operation = ''move'' \<or> op operation = ''copy'') \<and> from_path operation = None
                then Some (thrown OPERATION_FROM_REQUIRED i)
              else if takes_value (op operation) \<and> op_value operation = Undefined
                then Some (thrown OPERATION_VALUE_REQUIRED i)
              else
                (case (if takes_value (op operation) then hasUndefined h (op_value operation)
                       else Inr False) of
                   Inl e \<Rightarrow> Some e
                 | Inr undef \<Rightarrow>
                     (if undef then Some (thrown OPERATION_VALUE_CANNOT_CONTAIN_UNDEFINED i)
                      else if truthy document then
                        (if op operation = ''add'' then
                           (case existingPathFragment of
                              None \<Rightarrow> Some (TypeError ''Cannot read properties of undefined'')
                            | Some f \<Rightarrow>
                                (let pathLen = length (split_slash p);
                                     existingPathLen = length (split_slash f)
                                 in if pathLen \<noteq> existingPathLen + 1 \<and> pathLen \<noteq> existingPathLen
                                    then Some (thrown OPERATION_PATH_CANNOT_ADD i) else None))
                         else if op operation = ''replace'' \<or> op operation = ''remove''
                                 \<or> op operation = ''_get'' then
                           (if path operation \<noteq> existingPathFragment
                            then Some (thrown OPERATION_PATH_UNRESOLVABLE i) else None)
                         else if op operation = ''move'' \<or> op operation = ''copy'' then
                           (case check h [plain_op ''_get'' (from_path operation) Undefined] document of
                              Inl e \<Rightarrow> Some e
                            | Inr (Some (JsonPatchError OPERATION_PATH_UNRESOLVABLE j)) \<Rightarrow>
                                Some (thrown OPERATION_FROM_UNRESOLVABLE i)
                            | Inr r \<Rightarrow> None)
                         else None)
                      else None)))))"

subsection \<open>One round of the traversal\<close>

text \<open>
  What stays fixed during the \<open>while (true)\<close> loop of \<open>applyOperation\<close>, and what
  changes from round to round.  \<open>c_validate\<close> is the truth value of \<open>validateOperation\<close>,
  \<open>c_vfun\<close> is \<open>validateFunction\<close>.
\<close>

record ctx =
  c_operation :: operation
  c_validate :: bool
  c_vfun :: vfun
  c_mutate :: bool
  c_ban :: bool
  c_index :: nat
  c_document :: val
  c_working :: val
  c_xconfig :: "xconfig option"

record walk =
  w_heap :: heap
  w_keys :: "string list"
  w_obj :: val
  w_t :: nat
  w_fragment :: "string option"
  w_graftPath :: "string option"

definition nth_key :: "string list \<Rightarrow> nat \<Rightarrow> key" where
  "nth_key keys t = (if t < length keys then KStr (keys ! t) else KUndef)"

text \<open>\<open>key = keys[t]\<close>, unescaped when it holds a tilde.\<close>

definition current_key :: "string list \<Rightarrow> nat \<Rightarrow> key" where
  "current_key keys t =
     (case nth_key keys t of
        KStr s \<Rightarrow> (if s \<noteq> [] \<and> indexOf s ''~'' \<noteq> -1 then KStr (unescapePathComponent s) else KStr s)
      | k \<Rightarrow> k)"

text \<open>The test of the prototype guard.\<close>

definition banned_key :: "string list \<Rightarrow> nat \<Rightarrow> key \<Rightarrow> bool" where
  "banned_key keys t k =
     (k = KStr ''__proto__''
      \<or> (k = KStr ''prototype'' \<and> t > 0 \<and> nth_key keys (t - 1) = KStr ''constructor''))"

text \<open>The inline validation: the first time a branch is undefined, or at the last
  component, the path that exists is handed to \<open>validateFunction\<close>.\<close>

definition validate_hook :: "host \<Rightarrow> ctx \<Rightarrow> walk \<Rightarrow> key \<Rightarrow> error + string option" where
  "validate_hook H C w k =
     (if c_validate C \<and> w_fragment w = None then
        (case get_prop H (w_heap w) (w_obj w) k of
           Inl e \<Rightarrow> Inl e
         | Inr v \<Rightarrow>
             (let fragment =
                    (if v = Undefined then Some (join_slash (take (w_t w) (w_keys w)))
                     else if w_t w = length (w_keys w) - 1 then path (c_operation C)
                     else None)
              in case fragment of
                   None \<Rightarrow> Inr None
                 | Some f \<Rightarrow>
                     (case c_vfun C (w_heap w) (c_operation C) 0 (c_document C) fragment of
                        Some e \<Rightarrow> Inl e
                      | None \<Rightarrow> Inr fragment)))
      else Inr (w_fragment w))"

text \<open>
  The key inside an array, with \<open>t\<close> already incremented: the sentinels \<open>-\<close> and \<open>--\<close>,
  and the conversion of a string of digits.  The result is the key, the \<open>keys\<close> array and
  the graft path.
\<close>

definition array_key ::
    "host \<Rightarrow> ctx \<Rightarrow> heap \<Rightarrow> val \<Rightarrow> nat \<Rightarrow> key \<Rightarrow> string list \<Rightarrow> string option
     \<Rightarrow> error + (key \<times> string list \<times> string option)" where
  "array_key H C h ob t k keys graftPath =
     (let operation = c_operation C; n = arr_length h ob in
      if op operation = ''x'' \<and> resolve operation \<noteq> Bool True \<and> k = KStr [] then
        Inl (thrown OPERATION_PATH_ILLEGAL_ARRAY_INDEX (c_index C))
      else if k = KStr ''-'' then
        (if op operation = ''x'' then
           (let keys' = keys[t - 1 := string_of_int (int n)] in
            Inr (KNum (int n), keys',
                 (if graftPath = None then Some (join_slash (take t keys')) else graftPath)))
         else Inr (KNum (int n), keys, graftPath))
      else if op operation = ''x'' \<and> k = KStr ''--'' then
        (let keys' = keys[t - 1 := string_of_int (int n - 1)] in
         Inr (KNum (int n - 1), keys',
              (if graftPath = None then Some (join_slash (take t keys')) else graftPath)))
      else
        (case k of
           KStr s \<Rightarrow>
             (if c_validate C \<and> \<not> isInteger s then
                Inl (thrown OPERATION_PATH_ILLEGAL_ARRAY_INDEX (c_index C))
              else if isInteger s then
                (let i = toInt32 H k in
                 if op operation = ''x'' \<and> resolve operation \<noteq> Bool True \<and> i \<ge> int n then
                   Inl (thrown OPERATION_VALUE_OUT_OF_BOUNDS (c_index C))
                 else Inr (KNum i, keys, graftPath))
              else Inr (k, keys, graftPath))
         | KUndef \<Rightarrow> Inl (TypeError ''Cannot read properties of undefined'')
         | KNum i \<Rightarrow> Inr (KNum (wrap32 i), keys, graftPath)))"

text \<open>
  After a registered handler has run at the last component: \<open>undefined\<close> keeps the
  document; otherwise, when the document is mutated in place, the result is grafted
  into it (or pruned from it), and when it is not, the handler's result is returned.
  \<open>ambiguity\<close> tells whether the branch checks for a removal while resolving.
\<close>

definition hres_result :: "operation \<Rightarrow> val \<Rightarrow> val \<Rightarrow> op_result" where
  "hres_result operation nd rm = (result_of operation nd)\<lparr>removed := rm\<rparr>"

definition x_finish ::
    "host \<Rightarrow> ctx \<Rightarrow> bool \<Rightarrow> string list \<Rightarrow> nat \<Rightarrow> string option \<Rightarrow> (error + hres) \<times> heap \<Rightarrow> outcome" where
  "x_finish H C ambiguity keys t graftPath r =
     (let operation = c_operation C; document = c_document C in
      case r of
        (Inl e, h1) \<Rightarrow> (Inl e, h1)
      | (Inr HUndefined, h1) \<Rightarrow> (Inr (result_of operation document), h1)
      | (Inr (HResult nd rm), h1) \<Rightarrow>
          (if ambiguity \<and> rm \<noteq> Undefined \<and> resolve operation = Bool True then
             (Inl (thrown OPERATION_X_AMBIGUOUS_REMOVAL (c_index C)), h1)
           else if c_mutate C then
             (let comps =
                    (if rm \<noteq> Undefined then drop 1 (take t keys)
                     else (case graftPath of
                             None \<Rightarrow> drop 1 (take t keys)
                           | Some g \<Rightarrow> drop 1 (split_slash g)));
                  m = (if rm \<noteq> Undefined then Prune else Graft)
              in case graftTree H h1 nd document m comps of
                   Inl e \<Rightarrow> (Inl e, h1)
                 | Inr h2 \<Rightarrow> (Inr (result_of operation document), h2))
           else (Inr (hres_result operation nd rm), h1)))"

text \<open>The call through an operations table, and the failed \<open>test\<close>.\<close>

definition table_call ::
    "(string \<Rightarrow> opfun option) \<Rightarrow> ctx \<Rightarrow> heap \<Rightarrow> val \<Rightarrow> key \<Rightarrow> outcome" where
  "table_call table C h ob k =
     (case table (op (c_operation C)) of
        None \<Rightarrow> (Inl (TypeError ''Cannot read properties of undefined (reading call)''), h)
      | Some f \<Rightarrow>
          (case f h (c_operation C) ob k (c_document C) of
             (Inl e, h1) \<Rightarrow> (Inl e, h1)
           | (Inr returnValue, h1) \<Rightarrow>
               (if test returnValue = Some False
                then (Inl (thrown TEST_OPERATION_FAILED (c_index C)), h1)
                else (Inr returnValue, h1))))"

text \<open>The last component, in an array and in anything else.\<close>

definition finish_array ::
    "host \<Rightarrow> (string \<Rightarrow> opfun option) \<Rightarrow> ctx \<Rightarrow> heap \<Rightarrow> val \<Rightarrow> key \<Rightarrow> string list \<Rightarrow> nat \<Rightarrow> string option
     \<Rightarrow> outcome" where
  "finish_array H table C h ob k keys t graftPath =
     (let operation = c_operation C in
      case (if op operation = ''x'' then c_xconfig C else None) of
        Some xConfig \<Rightarrow>
          (if k = KStr [] \<and> \<not> truthy (resolve operation) then
             (Inr (result_of operation (op_value operation)), h)
           else x_finish H C True keys t graftPath (x_arr xConfig h operation ob k (c_working C)))
      | None \<Rightarrow>
          (if c_validate C \<and> op operation = ''add''
              \<and> (case k of KNum i \<Rightarrow> i > int (arr_length h ob) | _ \<Rightarrow> False) then
             (Inl (thrown OPERATION_VALUE_OUT_OF_BOUNDS (c_index C)), h)
           else table_call table C h ob k))"

definition finish_object ::
    "host \<Rightarrow> (string \<Rightarrow> opfun option) \<Rightarrow> ctx \<Rightarrow> heap \<Rightarrow> val \<Rightarrow> key \<Rightarrow> string list \<Rightarrow> nat \<Rightarrow> string option
     \<Rightarrow> outcome" where
  "finish_object H table C h ob k keys t graftPath =
     (let operation = c_operation C in
      case (if op operation = ''x'' then c_xconfig C else None) of
        Some xConfig \<Rightarrow>
          (case k of
             KUndef \<Rightarrow> (Inl (TypeError ''Cannot read properties of undefined''), h)
           | _ \<Rightarrow>
               (if k = KStr [] \<and> \<not> truthy (resolve operation) then
                  (Inr (result_of operation (op_value operation)), h)
                else x_finish H C False keys t graftPath
                       (x_obj xConfig h operation ob k (c_working C))))
      | None \<Rightarrow> table_call table C h ob k)"

text \<open>
  Between components.  An extended operation in resolve mode creates the missing
  container: an array of minimal capacity when the document is an array and the next
  component is numeric, an object otherwise.  Then the walk descends.
\<close>

definition new_container :: "host \<Rightarrow> ctx \<Rightarrow> heap \<Rightarrow> string \<Rightarrow> error + hobj" where
  "new_container H C h next_key =
     (if isArray h (c_document C) \<and> isInteger next_key then
        (let n = toInt32 H (KStr next_key) + 1 in
         if n < 0 then Inl (RangeError ''Invalid array length'')
         else Inr (Arr (replicate (nat n) Undefined) []))
      else Inr (Obj []))"

definition resolve_missing ::
    "host \<Rightarrow> ctx \<Rightarrow> heap \<Rightarrow> val \<Rightarrow> key \<Rightarrow> string list \<Rightarrow> nat \<Rightarrow> string option
     \<Rightarrow> (error + string option) \<times> heap" where
  "resolve_missing H C h ob k keys t graftPath =
     (let operation = c_operation C in
      if op operation = ''x'' \<and> (case c_xconfig C of None \<Rightarrow> False | Some xConfig \<Rightarrow> True) then
        (case get_prop H h ob k of
           Inl e \<Rightarrow> (Inl e, h)
         | Inr v \<Rightarrow>
             (if v = Undefined then
                (let graftPath' = (if graftPath = None then Some (join_slash (take t keys)) else graftPath) in
                 if resolve operation = Bool True then
                   (case new_container H C h (key_string (nth_key keys t)) of
                      Inl e \<Rightarrow> (Inl e, h)
                    | Inr c \<Rightarrow>
                        (case set_prop H (h @ [c]) ob k (Ref (length h)) of
                           Inl e \<Rightarrow> (Inl e, h @ [c])
                         | Inr h1 \<Rightarrow> (Inr graftPath', h1)))
                 else (Inr graftPath', h))
              else (Inr graftPath, h)))
      else (Inr graftPath, h))"

definition descend :: "host \<Rightarrow> ctx \<Rightarrow> heap \<Rightarrow> val \<Rightarrow> key \<Rightarrow> string list \<Rightarrow> nat \<Rightarrow> string option
     \<Rightarrow> string option \<Rightarrow> outcome + walk" where
  "descend H C h ob k keys t fragment graftPath =
     (case resolve_missing H C h ob k keys t graftPath of
        (Inl e, h1) \<Rightarrow> Inl (Inl e, h1)
      | (Inr graftPath', h1) \<Rightarrow>
          (case get_prop H h1 ob k of
             Inl e \<Rightarrow> Inl (Inl e, h1)
           | Inr ob' \<Rightarrow>
               (if c_validate C \<and> t < length keys \<and> (\<not> truthy ob' \<or> \<not> is_object_type ob') then
                  Inl (Inl (thrown OPERATION_PATH_UNRESOLVABLE (c_index C)), h1)
                else
                  Inr \<lparr>w_heap = h1, w_keys = keys, w_obj = ob', w_t = t,
                       w_fragment = fragment, w_graftPath = graftPath'\<rparr>)))"

text \<open>One round of the loop: it ends the operation (\<open>Inl\<close>) or hands over to the next
  round (\<open>Inr\<close>).\<close>

definition step ::
    "host \<Rightarrow> (string \<Rightarrow> opfun option) \<Rightarrow> (string \<Rightarrow> opfun option) \<Rightarrow> ctx \<Rightarrow> walk \<Rightarrow> outcome + walk" where
  "step H objT arrT C w =
     (let h = w_heap w; keys = w_keys w; ob = w_obj w; len = length keys;
          k = current_key keys (w_t w)
      in if c_ban C \<and> banned_key keys (w_t w) k then Inl (Inl (TypeError PROTO_ERROR_MSG), h)
         else
           (case validate_hook H C w k of
              Inl e \<Rightarrow> Inl (Inl e, h)
            | Inr fragment \<Rightarrow>
                (let t = Suc (w_t w) in
                 if isArray h ob then
                   (case array_key H C h ob t k keys (w_graftPath w) of
                      Inl e \<Rightarrow> Inl (Inl e, h)
                    | Inr (k', keys', graftPath) \<Rightarrow>
                        (if t \<ge> len then Inl (finish_array H arrT C h ob k' keys' t graftPath)
                         else descend H C h ob k' keys' t fragment graftPath))
                 else
                   (if t \<ge> len then Inl (finish_object H objT C h ob k keys t (w_graftPath w))
                    else descend H C h ob k keys t fragment (w_graftPath w)))))"

lemma array_key_length:
  "array_key H C h ob t k keys g = Inr (k', keys', g') \<Longrightarrow> length keys' = length keys"
  by (auto simp: array_key_def Let_def split: if_splits key.splits)

lemma descend_walk:
  "descend H C h ob k keys t fragment g = Inr w' \<Longrightarrow> w_t w' = t \<and> w_keys w' = keys"
  by (auto simp: descend_def split: prod.splits sum.splits if_splits)

lemma step_walk:
  assumes "step H objT arrT C w = Inr w'"
  shows "w_t w' = Suc (w_t w) \<and> length (w_keys w') = length (w_keys w)
           \<and> Suc (w_t w) < length (w_keys w)"
  using assms
  by (auto simp: step_def Let_def split: if_splits sum.splits prod.splits
           dest!: descend_walk dest: array_key_length)

text \<open>The loop itself.  Each round moves one component on and the last one returns.\<close>

function walk_loop ::
    "host \<Rightarrow> (string \<Rightarrow> opfun option) \<Rightarrow> (string \<Rightarrow> opfun option) \<Rightarrow> ctx \<Rightarrow> walk \<Rightarrow> outcome" where
  "walk_loop H objT arrT C w =
     (case step H objT arrT C w of
        Inl out \<Rightarrow> out
      | Inr w' \<Rightarrow> walk_loop H objT arrT C w')"
  by pat_completeness auto
termination
proof (relation "measure (\<lambda>(H, objT, arrT, C, w). length (w_keys w) - w_t w)")
  show "wf (measure (\<lambda>(H, objT, arrT, C, w). length (w_keys w) - w_t w))" by simp
next
  fix H objT arrT C w w'
  assume "step H objT arrT C w = Inr w'"
  from step_walk [OF this]
  show "((H, objT, arrT, C, w'), (H, objT, arrT, C, w))
          \<in> measure (\<lambda>(H, objT, arrT, C, w). length (w_keys w) - w_t w)"
    by auto
qed

declare walk_loop.simps [simp del]

subsection \<open>applyOperation, applyPatch and validate\<close>

text \<open>The root regime: \<open>operation.path === ""\<close>.\<close>

definition root_operation ::
    "apply_t \<Rightarrow> registry \<Rightarrow> heap \<Rightarrow> val \<Rightarrow> operation \<Rightarrow> bool \<Rightarrow> bool \<Rightarrow> nat \<Rightarrow> outcome" where
  "root_operation self reg h document operation validateOperation mutateDocument i =
     (let returnValue = result_of operation document in
      if op operation = ''add'' then
        (Inr (returnValue\<lparr>newDocument := op_value operation\<rparr>), h)
      else if op operation = ''replace'' then
        (Inr (returnValue\<lparr>newDocument := op_value operation, removed := document\<rparr>), h)
      else if op operation = ''move'' \<or> op operation = ''copy'' then
        (case getValueByPointer self h document (from_path operation) of
           (Inl e, h1) \<Rightarrow> (Inl e, h1)
         | (Inr v, h1) \<Rightarrow>
             (Inr (returnValue\<lparr>newDocument := v,
                     removed := (if op operation = ''move'' then document else Undefined)\<rparr>), h1))
      else if op operation = ''test'' then
        (case areEquals h document (op_value operation) of
           Inl e \<Rightarrow> (Inl e, h)
         | Inr b \<Rightarrow>
             (if \<not> b then (Inl (thrown TEST_OPERATION_FAILED i), h)
              else (Inr (returnValue\<lparr>test := Some b\<rparr>), h)))
      else if op operation = ''remove'' then
        (Inr (returnValue\<lparr>removed := document, newDocument := Null\<rparr>), h)
      else if op operation = ''_get'' then
        (Inr (returnValue\<lparr>value_out := document\<rparr>), h)
      else if op operation = ''x'' then
        (case registry_get reg (xid operation) of
           None \<Rightarrow> (Inl (thrown OPERATION_X_OP_INVALID i), h)
         | Some xConfig \<Rightarrow>
             (case (if \<not> mutateDocument then deepClone h document else (Inr document, h)) of
                (Inl e, h1) \<Rightarrow> (Inl e, h1)
              | (Inr workingDocument, h1) \<Rightarrow>
                  (if resolve operation = Bool True then
                     (case x_obj xConfig h1 operation workingDocument (KStr []) workingDocument of
                        (Inl e, h2) \<Rightarrow> (Inl e, h2)
                      | (Inr HUndefined, h2) \<Rightarrow> (Inr (result_of operation document), h2)
                      | (Inr (HResult nd rm), h2) \<Rightarrow> (Inr (hres_result operation nd rm), h2))
                   else (Inr (result_of operation (op_value operation)), h1))))
      else if validateOperation then (Inl (thrown OPERATION_OP_INVALID i), h)
      else (Inr returnValue, h))"

text \<open>The nested regime: the clone when the document is not to be mutated, the second
  clone for an extended operation, then the loop.\<close>

definition nested_operation ::
    "apply_t \<Rightarrow> vfun \<Rightarrow> host \<Rightarrow> registry \<Rightarrow> apply_t" where
  "nested_operation self validator H reg h document0 operation vm mutateDocument ban i =
     (case (if \<not> mutateDocument then deepClone h document0 else (Inr document0, h)) of
        (Inl e, h1) \<Rightarrow> (Inl e, h1)
      | (Inr document, h1) \<Rightarrow>
          (let keys = split_slash (case path operation of None \<Rightarrow> [] | Some p \<Rightarrow> p);
               C = \<lparr>c_operation = operation, c_validate = validating vm,
                    c_vfun = (case vm of CustomValidation f \<Rightarrow> f | _ \<Rightarrow> validator),
                    c_mutate = mutateDocument, c_ban = ban, c_index = i,
                    c_document = document, c_working = document, c_xconfig = None\<rparr>
           in if op operation = ''x'' then
                (case registry_get reg (xid operation) of
                   None \<Rightarrow> (Inl (thrown OPERATION_X_OP_INVALID i), h1)
                 | Some xConfig \<Rightarrow>
                     (case deepClone h1 document of
                        (Inl e, h2) \<Rightarrow> (Inl e, h2)
                      | (Inr workingDocument, h2) \<Rightarrow>
                          walk_loop H (objOps self H) (arrOps self H)
                            (C\<lparr>c_working := workingDocument, c_xconfig := Some xConfig\<rparr>)
                            \<lparr>w_heap = h2, w_keys = keys, w_obj = workingDocument, w_t = 1,
                             w_fragment = None, w_graftPath = None\<rparr>))
              else
                walk_loop H (objOps self H) (arrOps self H) C
                  \<lparr>w_heap = h1, w_keys = keys, w_obj = document, w_t = 1,
                   w_fragment = None, w_graftPath = None\<rparr>))"

text \<open>\<open>applyOperation\<close> of core.mjs, with the function it calls for itself and the
  default validator as arguments.  \<open>initial_validation\<close> is the check before the two
  regimes: what it throws, if anything.\<close>

definition initial_validation :: "vfun \<Rightarrow> heap \<Rightarrow> val \<Rightarrow> operation \<Rightarrow> vmode \<Rightarrow> error option" where
  "initial_validation validator h document operation vm =
     (case vm of
        NoValidation \<Rightarrow> None
      | CustomValidation f \<Rightarrow> f h operation 0 document (path operation)
      | DefaultValidation \<Rightarrow> validator h operation 0 Undefined None)"

definition applyOperation_body ::
    "apply_t \<Rightarrow> vfun \<Rightarrow> host \<Rightarrow> registry \<Rightarrow> apply_t" where
  "applyOperation_body self validator H reg h document operation vm mutateDocument ban i =
     (case initial_validation validator h document operation vm of
        Some e \<Rightarrow> (Inl e, h)
      | None \<Rightarrow>
          (if path operation = Some [] then
             root_operation self reg h document operation (validating vm) mutateDocument i
           else nested_operation self validator H reg h document operation vm mutateDocument ban i))"

text \<open>\<open>applyPatch\<close>: the loop over the patch, and the function.  The patch is a typed
  list, so the test that it is an array cannot fail.\<close>

fun patch_loop ::
    "apply_t \<Rightarrow> heap \<Rightarrow> val \<Rightarrow> operation list \<Rightarrow> vmode \<Rightarrow> bool \<Rightarrow> nat
     \<Rightarrow> (error + op_result list \<times> val) \<times> heap" where
  "patch_loop self h document [] vm ban i = (Inr ([], document), h)"
| "patch_loop self h document (operation # rest) vm ban i =
     (case self h document operation vm True ban i of
        (Inl e, h1) \<Rightarrow> (Inl e, h1)
      | (Inr r, h1) \<Rightarrow>
          (case patch_loop self h1 (newDocument r) rest vm ban (Suc i) of
             (Inl e, h2) \<Rightarrow> (Inl e, h2)
           | (Inr (rs, d), h2) \<Rightarrow> (Inr (r # rs, d), h2)))"

definition applyPatch_with ::
    "apply_t \<Rightarrow> heap \<Rightarrow> val \<Rightarrow> operation list \<Rightarrow> vmode \<Rightarrow> bool \<Rightarrow> bool
     \<Rightarrow> (error + op_result list \<times> val) \<times> heap" where
  "applyPatch_with self h document0 patch vm mutateDocument ban =
     (case (if \<not> mutateDocument then deepClone h document0 else (Inr document0, h)) of
        (Inl e, h1) \<Rightarrow> (Inl e, h1)
      | (Inr document, h1) \<Rightarrow> patch_loop self h1 document patch vm ban 0)"

text \<open>
  \<open>_deepClone(sequence)\<close>: the JSON round trip of the operation objects.  A property
  that is undefined or a function stays absent; the strings stay as they are.
\<close>

definition clone_property :: "heap \<Rightarrow> val \<Rightarrow> (error + val) \<times> heap" where
  "clone_property h v =
     (if left_out v then (Inr Undefined, h)
      else
        (case stringify (length h) h v of
           None \<Rightarrow> (Inl (TypeError ''Converting circular structure to JSON''), h)
         | Some j \<Rightarrow> (case parse j h of (v', h1) \<Rightarrow> (Inr v', h1))))"

definition clone_operation :: "heap \<Rightarrow> operation \<Rightarrow> (error + operation) \<times> heap" where
  "clone_operation h operation =
     (case clone_property h (op_value operation) of
        (Inl e, h1) \<Rightarrow> (Inl e, h1)
      | (Inr v, h1) \<Rightarrow>
          (case clone_property h1 (xid operation) of
             (Inl e, h2) \<Rightarrow> (Inl e, h2)
           | (Inr x, h2) \<Rightarrow>
               (case clone_property h2 (args operation) of
                  (Inl e, h3) \<Rightarrow> (Inl e, h3)
                | (Inr a, h3) \<Rightarrow>
                    (case clone_property h3 (resolve operation) of
                       (Inl e, h4) \<Rightarrow> (Inl e, h4)
                     | (Inr r, h4) \<Rightarrow>
                         (Inr (operation\<lparr>op_value := v, xid := x, args := a, resolve := r\<rparr>), h4)))))"

fun clone_sequence :: "heap \<Rightarrow> operation list \<Rightarrow> (error + operation list) \<times> heap" where
  "clone_sequence h [] = (Inr [], h)"
| "clone_sequence h (operation # rest) =
     (case clone_operation h operation of
        (Inl e, h1) \<Rightarrow> (Inl e, h1)
      | (Inr operation', h1) \<Rightarrow>
          (case clone_sequence h1 rest of
             (Inl e, h2) \<Rightarrow> (Inl e, h2)
           | (Inr rest', h2) \<Rightarrow> (Inr (operation' # rest'), h2)))"

text \<open>The structural branch of \<open>validate\<close>: each operation on its own, until one throws.\<close>

fun validate_each :: "vfun \<Rightarrow> heap \<Rightarrow> val \<Rightarrow> operation list \<Rightarrow> nat \<Rightarrow> error option" where
  "validate_each f h document [] i = None"
| "validate_each f h document (operation # rest) i =
     (case f h operation i document None of
        Some e \<Rightarrow> Some e
      | None \<Rightarrow> validate_each f h document rest (Suc i))"

text \<open>
  \<open>validate\<close> of core.mjs.  \<open>attempt\<close> is the body of the \<open>try\<close>: what it throws, if
  anything.  The \<open>catch\<close> returns an error of the library's class as a value (\<open>Inr\<close>)
  and throws every other one again (\<open>Inl\<close>).  The dry run works on clones that nothing
  refers to afterwards, so the store is not part of the result.
\<close>

type_synonym validate_t = "heap \<Rightarrow> operation list \<Rightarrow> val \<Rightarrow> vfun option \<Rightarrow> error + error option"

definition validate_attempt :: "apply_t \<Rightarrow> vfun \<Rightarrow> heap \<Rightarrow> operation list \<Rightarrow> val \<Rightarrow> vfun option \<Rightarrow> error option" where
  "validate_attempt self validator h sequence document externalValidator =
     (if truthy document then
        (case deepClone h document of
           (Inl e, h1) \<Rightarrow> Some e
         | (Inr d, h1) \<Rightarrow>
             (case clone_sequence h1 sequence of
                (Inl e, h2) \<Rightarrow> Some e
              | (Inr sq, h2) \<Rightarrow>
                  (case applyPatch_with self h2 d sq
                          (case externalValidator of
                             Some f \<Rightarrow> CustomValidation f
                           | None \<Rightarrow> DefaultValidation) True True of
                     (Inl e, h3) \<Rightarrow> Some e
                   | (Inr r, h3) \<Rightarrow> None)))
      else
        validate_each (case externalValidator of Some f \<Rightarrow> f | None \<Rightarrow> validator)
          h document sequence 0)"

definition validate_with :: "apply_t \<Rightarrow> vfun \<Rightarrow> validate_t" where
  "validate_with self validator h sequence document externalValidator =
     (case validate_attempt self validator h sequence document externalValidator of
        None \<Rightarrow> Inr None
      | Some (JsonPatchError name i) \<Rightarrow> Inr (Some (JsonPatchError name i))
      | Some e \<Rightarrow> Inl e)"

text \<open>
  Closing the recursion.  The argument counts the nested calls still possible; at 0 the
  host's stack is exhausted.  A call of \<open>applyOperation\<close> nests at most four deep
  (the validator, \<open>validate\<close>, the dry run of \<open>_get\<close>, its validator), so depth 8 is
  more than any call needs.
\<close>

fun applyOperation_at :: "host \<Rightarrow> registry \<Rightarrow> nat \<Rightarrow> apply_t"
  and validator_at :: "host \<Rightarrow> registry \<Rightarrow> nat \<Rightarrow> vfun"
  and validate_at :: "host \<Rightarrow> registry \<Rightarrow> nat \<Rightarrow> validate_t"
where
  "applyOperation_at H reg 0 =
     (\<lambda>h document operation vm mutateDocument ban i.
        (Inl (RangeError ''Maximum call stack size exceeded''), h))"
| "applyOperation_at H reg (Suc n) =
     applyOperation_body (applyOperation_at H reg n) (validator_at H reg n) H reg"
| "validator_at H reg 0 =
     (\<lambda>h operation i document fragment. Some (RangeError ''Maximum call stack size exceeded''))"
| "validator_at H reg (Suc n) =
     validator_with H (\<lambda>h sequence document. validate_at H reg n h sequence document None) reg"
| "validate_at H reg 0 =
     (\<lambda>h sequence document externalValidator. Inl (RangeError ''Maximum call stack size exceeded''))"
| "validate_at H reg (Suc n) = validate_with (applyOperation_at H reg n) (validator_at H reg n)"

text \<open>The functions the module exports.\<close>

definition applyOperation :: "host \<Rightarrow> registry \<Rightarrow> apply_t" where
  "applyOperation H reg = applyOperation_at H reg 8"

definition validator :: "host \<Rightarrow> registry \<Rightarrow> vfun" where
  "validator H reg = validator_at H reg 8"

definition applyPatch ::
    "host \<Rightarrow> registry \<Rightarrow> heap \<Rightarrow> val \<Rightarrow> operation list \<Rightarrow> vmode \<Rightarrow> bool \<Rightarrow> bool
     \<Rightarrow> (error + op_result list \<times> val) \<times> heap" where
  "applyPatch H reg = applyPatch_with (applyOperation H reg)"

definition validate :: "host \<Rightarrow> registry \<Rightarrow> validate_t" where
  "validate H reg = validate_with (applyOperation H reg) (validator H reg)"

text \<open>\<open>applyReducer\<close> of core.mjs.\<close>

definition applyReducer :: "host \<Rightarrow> registry \<Rightarrow> heap \<Rightarrow> val \<Rightarrow> operation \<Rightarrow> nat \<Rightarrow> (error + val) \<times> heap" where
  "applyReducer H reg h document operation i =
     (case applyOperation H reg h document operation NoValidation True True 0 of
        (Inl e, h1) \<Rightarrow> (Inl e, h1)
      | (Inr operationResult, h1) \<Rightarrow>
          (if test operationResult = Some False then (Inl (thrown TEST_OPERATION_FAILED i), h1)
           else (Inr (newDocument operationResult), h1)))"

section \<open>Concrete inputs\<close>

text \<open>A host for the examples, with nothing to inherit.  A string that is no numeric
  literal converts to 0, as \<open>~~'abc'\<close> does; none of the examples reaches another
  conversion that depends on the host.\<close>

definition host0 :: host where
  "host0 =
     \<lparr>int32_of_string = (\<lambda>s. 0), array_length_of = (\<lambda>h v. None),
      inherited = (\<lambda>h obj name. Undefined), set_proto = (\<lambda>h obj v. Inr h),
      table_member = (\<lambda>name. None)\<rparr>"

text \<open>A host with one object of its own, the function \<open>Object\<close> at address 0 of the
  store, which every value inherits as its \<open>constructor\<close>.\<close>

definition host1 :: host where
  "host1 =
     \<lparr>int32_of_string = (\<lambda>s. 0), array_length_of = (\<lambda>h v. None),
      inherited = (\<lambda>h obj name. if name = ''constructor'' then Fun 0 else Undefined),
      set_proto = (\<lambda>h obj v. Inr h), table_member = (\<lambda>name. None)\<rparr>"

definition x_op :: "string \<Rightarrow> string \<Rightarrow> val \<Rightarrow> operation" where
  "x_op name p r =
     \<lparr>op = ''x'', path = Some p, from_path = None, op_value = Undefined, xid = Str name,
      args = Undefined, resolve = r\<rparr>"

text \<open>A handler that emulates the RFC \<open>remove\<close>: it deletes the key from the node it
  is handed and reports the removed value.\<close>

definition removing_handler :: handler where
  "removing_handler h operation ob k document =
     (case get_prop host0 h ob k of
        Inl e \<Rightarrow> (Inl e, h)
      | Inr v \<Rightarrow>
          (case delete_prop h ob k of
             Inl e \<Rightarrow> (Inl e, h)
           | Inr h1 \<Rightarrow> (Inr (HResult document v), h1)))"

definition accept_all :: vfun where
  "accept_all h operation i document fragment = None"

definition reg_rm :: registry where
  "reg_rm = [''x-rm'' \<mapsto> \<lparr>x_arr = removing_handler, x_obj = removing_handler, x_validator = accept_all\<rparr>]"



text \<open>A handler that marks the node it is handed, \<open>obj[key] = true\<close> in a \<open>try\<close> block,
  and returns \<open>undefined\<close>.\<close>

definition marking_handler :: handler where
  "marking_handler h operation ob k document =
     (case set_prop host0 h ob k (Bool True) of
        Inl e \<Rightarrow> (Inr HUndefined, h)
      | Inr h1 \<Rightarrow> (Inr HUndefined, h1))"

definition reg_mark :: registry where
  "reg_mark = [''x-mark'' \<mapsto> \<lparr>x_arr = marking_handler, x_obj = marking_handler, x_validator = accept_all\<rparr>]"

section \<open>Predicates used in the proofs\<close>

text \<open>A validator that agrees with the one of the traversal on its operation; two
  functions that agree on the calls the library makes for itself; a sequence without
  \<open>move\<close> and \<open>copy\<close>.\<close>

definition vfun_agree :: "ctx \<Rightarrow> vfun \<Rightarrow> bool" where
  "vfun_agree C v' = (\<not> c_validate C \<or> (\<forall>h i d f. c_vfun C h (c_operation C) i d f = v' h (c_operation C) i d f))"

definition simple_agree :: "apply_t \<Rightarrow> apply_t \<Rightarrow> bool" where
  "simple_agree a a' =
     (\<forall>h d name p v. name \<in> {''remove'', ''add'', ''_get''} \<longrightarrow>
        a h d (plain_op name p v) NoValidation True True 0
        = a' h d (plain_op name p v) NoValidation True True 0)"

definition plain_sequence :: "operation list \<Rightarrow> bool" where
  "plain_sequence sq = (\<forall>name \<in> set (map op sq). name \<noteq> ''move'' \<and> name \<noteq> ''copy'')"

text \<open>
  What a call leaves alone.  The caller's store has cells below \<open>L\<close>; among them \<open>B\<close> are
  the host's own objects, which inherited members lead to.  A value is loose when it
  does not point to a cell of the caller's that is not the host's: a primitive, a cell of
  \<open>B\<close>, or a cell allocated since.  The part of the store made of the host's cells and
  the new ones is closed when it holds loose values only, and the caller's cells are
  kept when every cell below \<open>L\<close> that is not the host's is as it was.
\<close>

definition addr_of :: "val \<Rightarrow> nat option" where
  "addr_of v = (case v of Ref a \<Rightarrow> Some a | Fun a \<Rightarrow> Some a | _ \<Rightarrow> None)"

definition cell_vals :: "hobj \<Rightarrow> val list" where
  "cell_vals c = (case c of Arr els props \<Rightarrow> els @ map snd props | Obj props \<Rightarrow> map snd props)"

definition loose :: "nat set \<Rightarrow> nat \<Rightarrow> val \<Rightarrow> bool" where
  "loose B L v = (case addr_of v of Some a \<Rightarrow> a \<in> B \<or> L \<le> a | None \<Rightarrow> True)"

definition closed :: "nat set \<Rightarrow> nat \<Rightarrow> heap \<Rightarrow> bool" where
  "closed B L h =
     (\<forall>a<length h. a \<in> B \<or> L \<le> a \<longrightarrow> (\<forall>v \<in> set (cell_vals (h ! a)). loose B L v))"

definition kept :: "nat set \<Rightarrow> nat \<Rightarrow> heap \<Rightarrow> heap \<Rightarrow> bool" where
  "kept B L h h' = (L \<le> length h \<and> length h \<le> length h' \<and> (\<forall>a<L. a \<notin> B \<longrightarrow> h' ! a = h ! a))"

text \<open>A write changes one cell, and what the cell holds afterwards was there before or
  is the value written.\<close>

definition one_write :: "heap \<Rightarrow> val \<Rightarrow> val list \<Rightarrow> heap \<Rightarrow> bool" where
  "one_write h ob vs h' =
     (\<exists>a. addr_of ob = Some a \<and> a < length h \<and> length h' = length h
          \<and> (\<forall>b. b \<noteq> a \<longrightarrow> h' ! b = h ! b)
          \<and> set (cell_vals (h' ! a)) \<subseteq> set (cell_vals (h ! a)) \<union> set vs \<union> {Undefined})"

definition grows :: "heap \<Rightarrow> heap \<Rightarrow> bool" where
  "grows h h' = (\<exists>cells. h' = h @ cells)"

text \<open>
  The host whose objects are the cells \<open>B\<close> of the store \<open>h\<close>: inherited members lead
  into \<open>B\<close>, the cells of \<open>B\<close> exist and point to cells of \<open>B\<close> only, and the setter of
  \<open>__proto__\<close> writes to the object it is called on only.
\<close>

definition host_in :: "host \<Rightarrow> nat set \<Rightarrow> bool" where
  "host_in H B =
     (\<forall>h obj name. case addr_of (inherited H h obj name) of Some a \<Rightarrow> a \<in> B | None \<Rightarrow> True)"

definition proto_local :: "host \<Rightarrow> bool" where
  "proto_local H = (\<forall>h obj v h'. set_proto H h obj v = Inr h' \<longrightarrow> h' = h \<or> one_write h obj [v] h')"

definition host_cells :: "nat set \<Rightarrow> heap \<Rightarrow> bool" where
  "host_cells B h =
     (\<forall>a \<in> B. a < length h
        \<and> (\<forall>v \<in> set (cell_vals (h ! a)). case addr_of v of Some b \<Rightarrow> b \<in> B | None \<Rightarrow> True))"

definition host_region :: "host \<Rightarrow> nat set \<Rightarrow> heap \<Rightarrow> bool" where
  "host_region H B h = (host_in H B \<and> proto_local H \<and> host_cells B h)"

text \<open>The state of a store whose loose part is closed, and the steps that keep it so
  while keeping the caller's cells.\<close>

definition sep :: "nat set \<Rightarrow> nat \<Rightarrow> heap \<Rightarrow> bool" where
  "sep B L h = (L \<le> length h \<and> closed B L h)"

definition extends :: "nat set \<Rightarrow> nat \<Rightarrow> heap \<Rightarrow> heap \<Rightarrow> bool" where
  "extends B L h h' = (kept B L h h' \<and> closed B L h')"

text \<open>The paths the prototype guard bans: a component \<open>__proto__\<close>, or \<open>prototype\<close> right
  after \<open>constructor\<close>.\<close>

definition banned_at :: "string list \<Rightarrow> nat \<Rightarrow> bool" where
  "banned_at keys j =
     (j < length keys
      \<and> (keys ! j = ''__proto__''
         \<or> (keys ! j = ''prototype'' \<and> 0 < j \<and> keys ! (j - 1) = ''constructor'')))"

definition banned_path :: "string \<Rightarrow> bool" where
  "banned_path p = (\<exists>j \<in> set [1..<length (split_slash p)]. banned_at (split_slash p) j)"

definition banned_ahead :: "walk \<Rightarrow> bool" where
  "banned_ahead w = (\<exists>j. w_t w \<le> j \<and> banned_at (w_keys w) j)"



text \<open>The context and the first state of the traversal of the nested regime, for the
  document \<open>d\<close> and the working document \<open>wd\<close>.\<close>

definition ctx_of ::
    "operation \<Rightarrow> vmode \<Rightarrow> vfun \<Rightarrow> bool \<Rightarrow> bool \<Rightarrow> nat \<Rightarrow> val \<Rightarrow> val \<Rightarrow> xconfig option \<Rightarrow> ctx" where
  "ctx_of operation vm vd mutateDocument ban i d wd cfg =
     \<lparr>c_operation = operation, c_validate = validating vm,
      c_vfun = (case vm of CustomValidation f \<Rightarrow> f | _ \<Rightarrow> vd),
      c_mutate = mutateDocument, c_ban = ban, c_index = i,
      c_document = d, c_working = wd, c_xconfig = cfg\<rparr>"

definition walk_of :: "heap \<Rightarrow> operation \<Rightarrow> val \<Rightarrow> walk" where
  "walk_of h operation wd =
     \<lparr>w_heap = h, w_keys = split_slash (case path operation of None \<Rightarrow> [] | Some p \<Rightarrow> p),
      w_obj = wd, w_t = 1, w_fragment = None, w_graftPath = None\<rparr>"

text \<open>The document an operation works on: the caller's, or its clone.\<close>

definition working_on :: "bool \<Rightarrow> heap \<Rightarrow> val \<Rightarrow> heap \<Rightarrow> val \<Rightarrow> bool" where
  "working_on mutateDocument h d0 h1 d =
     (if mutateDocument then d = d0 \<and> h1 = h else deepClone h d0 = (Inr d, h1))"

section \<open>Helper lemmas\<close>

lemma indexOf_lower: "- 1 \<le> indexOf s p"
  by (induction s) (auto simp: Let_def)

lemma indexOf_zero: "indexOf s p = 0 \<longleftrightarrow> prefix p s"
proof (cases s)
  case Nil
  then show ?thesis by auto
next
  case (Cons c cs)
  have "- 1 \<le> indexOf cs p" by (rule indexOf_lower)
  then show ?thesis using Cons by (auto simp: Let_def)
qed

subsection \<open>Independence of the nesting depth\<close>

subsection \<open>The traversal depends on the validator only when validating\<close>

lemma validate_hook_vfun:
  "vfun_agree C v' \<Longrightarrow> validate_hook H (C\<lparr>c_vfun := v'\<rparr>) w k = validate_hook H C w k"
  by (auto simp: vfun_agree_def validate_hook_def Let_def split: sum.splits option.splits)

lemma array_key_vfun [simp]: "array_key H (C\<lparr>c_vfun := v'\<rparr>) = array_key H C"
  by (intro ext) (simp add: array_key_def cong del: if_weak_cong key.case_cong_weak)

lemma x_finish_vfun [simp]: "x_finish H (C\<lparr>c_vfun := v'\<rparr>) = x_finish H C"
  by (intro ext) (simp add: x_finish_def cong del: if_weak_cong cong: key.case_cong sum.case_cong option.case_cong prod.case_cong hres.case_cong)

lemma table_call_vfun [simp]: "table_call table (C\<lparr>c_vfun := v'\<rparr>) = table_call table C"
  by (intro ext) (simp add: table_call_def cong del: if_weak_cong cong: key.case_cong sum.case_cong option.case_cong prod.case_cong hres.case_cong)

lemma finish_array_vfun [simp]: "finish_array H table (C\<lparr>c_vfun := v'\<rparr>) = finish_array H table C"
  by (intro ext) (simp add: finish_array_def cong del: if_weak_cong cong: key.case_cong sum.case_cong option.case_cong prod.case_cong hres.case_cong)

lemma finish_object_vfun [simp]: "finish_object H table (C\<lparr>c_vfun := v'\<rparr>) = finish_object H table C"
  by (intro ext) (simp add: finish_object_def cong del: if_weak_cong cong: key.case_cong sum.case_cong option.case_cong prod.case_cong hres.case_cong)

lemma new_container_vfun [simp]: "new_container H (C\<lparr>c_vfun := v'\<rparr>) = new_container H C"
  by (intro ext) (simp add: new_container_def cong del: if_weak_cong cong: key.case_cong sum.case_cong option.case_cong prod.case_cong hres.case_cong)

lemma resolve_missing_vfun [simp]: "resolve_missing H (C\<lparr>c_vfun := v'\<rparr>) = resolve_missing H C"
  by (intro ext) (simp add: resolve_missing_def cong del: if_weak_cong cong: key.case_cong sum.case_cong option.case_cong prod.case_cong hres.case_cong)

lemma descend_vfun [simp]: "descend H (C\<lparr>c_vfun := v'\<rparr>) = descend H C"
  by (intro ext) (simp add: descend_def cong del: if_weak_cong cong: key.case_cong sum.case_cong option.case_cong prod.case_cong hres.case_cong)

lemma step_vfun:
  "vfun_agree C v' \<Longrightarrow> step H oT aT (C\<lparr>c_vfun := v'\<rparr>) w = step H oT aT C w"
  by (simp add: step_def validate_hook_vfun cong del: if_weak_cong cong: sum.case_cong prod.case_cong)

lemma walk_vfun:
  "vfun_agree C v' \<Longrightarrow> walk_loop H oT aT (C\<lparr>c_vfun := v'\<rparr>) w = walk_loop H oT aT C w"
proof (induction H oT aT C w rule: walk_loop.induct)
  case (1 H objT arrT C w)
  show ?case
  proof (cases "step H objT arrT C w")
    case (Inl out)
    then show ?thesis
      using 1(2) by (simp add: walk_loop.simps [of H objT arrT _ w] step_vfun)
  next
    case (Inr w')
    then show ?thesis
      using 1 by (simp add: walk_loop.simps [of H objT arrT _ w] step_vfun)
  qed
qed

subsection \<open>The traversal uses its tables only at the operation's name\<close>

lemma table_call_cong:
  "table (op (c_operation C)) = table' (op (c_operation C)) \<Longrightarrow> table_call table C = table_call table' C"
  by (intro ext) (simp add: table_call_def cong del: if_weak_cong cong: key.case_cong sum.case_cong option.case_cong prod.case_cong hres.case_cong)

lemma step_table:
  "oT (op (c_operation C)) = oT' (op (c_operation C)) \<Longrightarrow> aT (op (c_operation C)) = aT' (op (c_operation C))
   \<Longrightarrow> step H oT aT C w = step H oT' aT' C w"
  by (simp add: step_def finish_array_def finish_object_def table_call_cong [of oT C oT'] table_call_cong [of aT C aT']
        cong del: if_weak_cong cong: key.case_cong sum.case_cong option.case_cong prod.case_cong)

lemma walk_table:
  "oT (op (c_operation C)) = oT' (op (c_operation C)) \<Longrightarrow> aT (op (c_operation C)) = aT' (op (c_operation C))
   \<Longrightarrow> walk_loop H oT aT C w = walk_loop H oT' aT' C w"
proof (induction H oT aT C w rule: walk_loop.induct)
  case (1 H objT arrT C w)
  show ?case
  proof (cases "step H objT arrT C w")
    case (Inl out)
    then show ?thesis
      using 1(2,3) step_table [of objT C oT' arrT aT' H w]
      by (simp add: walk_loop.simps [of H _ _ C w])
  next
    case (Inr w')
    then show ?thesis
      using 1 step_table [of objT C oT' arrT aT' H w]
      by (simp add: walk_loop.simps [of H _ _ C w])
  qed
qed

subsection \<open>The nested calls\<close>

lemma getValueByPointer_agree: "simple_agree a a' \<Longrightarrow> getValueByPointer a = getValueByPointer a'"
  by (intro ext) (simp add: getValueByPointer_def simple_agree_def)

lemma objOps_move_agree: "simple_agree a a' \<Longrightarrow> objOps_move a = objOps_move a'"
  by (intro ext)
     (simp add: objOps_move_def getValueByPointer_agree [of a a'] simple_agree_def
           cong del: if_weak_cong cong: sum.case_cong prod.case_cong)

lemma objOps_copy_agree: "simple_agree a a' \<Longrightarrow> objOps_copy a = objOps_copy a'"
  by (intro ext)
     (simp add: objOps_copy_def getValueByPointer_agree [of a a'] simple_agree_def
           cong del: if_weak_cong cong: sum.case_cong prod.case_cong)

lemma objOps_agree: "simple_agree a a' \<Longrightarrow> objOps a H = objOps a' H"
  by (intro ext) (simp add: objOps_def objOps_move_agree [of a a'] objOps_copy_agree [of a a'])

lemma arrOps_agree: "simple_agree a a' \<Longrightarrow> arrOps a H = arrOps a' H"
  by (intro ext) (simp add: arrOps_def objOps_move_agree [of a a'] objOps_copy_agree [of a a'])

lemma root_agree: "simple_agree a a' \<Longrightarrow> root_operation a = root_operation a'"
  by (intro ext) (simp add: root_operation_def getValueByPointer_agree [of a a'] Let_def
           cong del: if_weak_cong cong: option.case_cong sum.case_cong prod.case_cong vmode.case_cong)

lemma nested_agree: "simple_agree a a' \<Longrightarrow> nested_operation a v = nested_operation a' v"
  by (intro ext) (simp add: nested_operation_def objOps_agree [of a a'] arrOps_agree [of a a'] Let_def
           cong del: if_weak_cong cong: option.case_cong sum.case_cong prod.case_cong vmode.case_cong)

lemma body_agree: "simple_agree a a' \<Longrightarrow> applyOperation_body a v = applyOperation_body a' v"
  by (intro ext) (simp add: applyOperation_body_def root_agree [of a a'] nested_agree [of a a'] Let_def
           cong del: if_weak_cong cong: option.case_cong sum.case_cong prod.case_cong vmode.case_cong)

lemma objOps_other:
  "name \<noteq> ''move'' \<Longrightarrow> name \<noteq> ''copy'' \<Longrightarrow> objOps a H name = objOps a' H name"
  by (simp add: objOps_def)

lemma arrOps_other:
  "name \<noteq> ''move'' \<Longrightarrow> name \<noteq> ''copy'' \<Longrightarrow> arrOps a H name = arrOps a' H name"
  by (simp add: arrOps_def)

lemma root_other:
  "op operation \<noteq> ''move'' \<Longrightarrow> op operation \<noteq> ''copy''
   \<Longrightarrow> root_operation a reg h d operation val m i = root_operation a' reg h d operation val m i"
  by (simp add: root_operation_def Let_def)

lemma nested_other:
  assumes "op operation \<noteq> ''move''" "op operation \<noteq> ''copy''"
    and "vm = DefaultValidation \<longrightarrow> (\<forall>h i d f. v h operation i d f = v' h operation i d f)"
  shows "nested_operation a v H reg h d operation vm m b i
         = nested_operation a' v' H reg h d operation vm m b i"
proof -
  have tab: "objOps a H (op operation) = objOps a' H (op operation)"
            "arrOps a H (op operation) = arrOps a' H (op operation)"
    using assms(1,2) by (simp_all add: objOps_other [of _ a H a'] arrOps_other [of _ a H a'])
  have walk: "walk_loop H (objOps a H) (arrOps a H) C w
        = walk_loop H (objOps a' H) (arrOps a' H) (C\<lparr>c_vfun := (case vm of CustomValidation f \<Rightarrow> f | _ \<Rightarrow> v')\<rparr>) w"
    if "c_operation C = operation" "c_validate C = validating vm"
       "c_vfun C = (case vm of CustomValidation f \<Rightarrow> f | _ \<Rightarrow> v)" for C w
  proof -
    have "vfun_agree C (case vm of CustomValidation f \<Rightarrow> f | _ \<Rightarrow> v')"
      using that assms(3) by (cases vm) (auto simp: vfun_agree_def validating_def)
    then show ?thesis
      using walk_vfun [of C _ H "objOps a' H" "arrOps a' H" w]
            walk_table [of "objOps a H" C "objOps a' H" "arrOps a H" "arrOps a' H" H w] tab that(1)
      by simp
  qed
  show ?thesis
    by (simp add: nested_operation_def Let_def walk
             cong del: if_weak_cong cong: sum.case_cong prod.case_cong option.case_cong)
qed

lemma body_other:
  assumes "op operation \<noteq> ''move''" "op operation \<noteq> ''copy''"
    and "vm = DefaultValidation \<longrightarrow> (\<forall>h i d f. v h operation i d f = v' h operation i d f)"
  shows "applyOperation_body a v H reg h d operation vm m b i
         = applyOperation_body a' v' H reg h d operation vm m b i"
proof -
  have r: "root_operation a reg h d operation (validating vm) m i
           = root_operation a' reg h d operation (validating vm) m i"
    using assms(1,2) by (rule root_other)
  have n: "nested_operation a v H reg h d operation vm m b i
           = nested_operation a' v' H reg h d operation vm m b i"
    using assms by (rule nested_other)
  show ?thesis
    using assms(3) r n
    by (cases vm) (auto simp: applyOperation_body_def initial_validation_def split: option.splits)
qed

declare applyOperation_at.simps [simp del] validator_at.simps [simp del] validate_at.simps [simp del]

lemma validator_other:
  "op operation \<noteq> ''move'' \<Longrightarrow> op operation \<noteq> ''copy''
   \<Longrightarrow> validator_with H c reg h operation i d f = validator_with H c' reg h operation i d f"
  by (simp add: validator_with_def Let_def
        cong del: if_weak_cong cong: option.case_cong sum.case_cong)

lemma validator_falsy:
  "\<not> truthy d
   \<Longrightarrow> validator_with H c reg h operation i d f = validator_with H c' reg h operation i d f"
  by (simp add: validator_with_def Let_def
        cong del: if_weak_cong cong: option.case_cong sum.case_cong)

lemma validator_check_cong:
  "(\<And>h p d. c h [plain_op ''_get'' p Undefined] d = c' h [plain_op ''_get'' p Undefined] d)
   \<Longrightarrow> validator_with H c reg = validator_with H c' reg"
  by (intro ext)
     (simp add: validator_with_def Let_def
           cong del: if_weak_cong cong: option.case_cong sum.case_cong prod.case_cong)

lemma simple_agree_at: "simple_agree (applyOperation_at H reg (Suc n)) (applyOperation_at H reg (Suc m))"
  unfolding simple_agree_def
proof (intro allI impI)
  fix h d name p v
  assume "name \<in> {''remove'', ''add'', ''_get''}"
  then have "op (plain_op name p v) \<noteq> ''move''" "op (plain_op name p v) \<noteq> ''copy''"
    by (auto simp: plain_op_def)
  then show "applyOperation_at H reg (Suc n) h d (plain_op name p v) NoValidation True True 0
        = applyOperation_at H reg (Suc m) h d (plain_op name p v) NoValidation True True 0"
    unfolding applyOperation_at.simps by (intro body_other) simp_all
qed

lemma apply_at_other:
  assumes "op operation \<noteq> ''move''" "op operation \<noteq> ''copy''"
  shows "applyOperation_at H reg (Suc (Suc n)) h d operation vm m b i
         = applyOperation_at H reg (Suc (Suc 0)) h d operation vm m b i"
proof -
  have "applyOperation_body (applyOperation_at H reg (Suc n)) (validator_at H reg (Suc n)) H reg
          h d operation vm m b i
        = applyOperation_body (applyOperation_at H reg (Suc 0)) (validator_at H reg (Suc n)) H reg
            h d operation vm m b i"
    by (simp only: body_agree [OF simple_agree_at [of H reg n 0]])
  also have "\<dots> = applyOperation_body (applyOperation_at H reg (Suc 0)) (validator_at H reg (Suc 0)) H reg
            h d operation vm m b i"
    unfolding validator_at.simps
    by (intro body_other assms impI allI validator_other)
  finally show ?thesis by (simp only: applyOperation_at.simps)
qed

lemma patch_loop_cong:
  "(\<And>operation h d i. operation \<in> set ops \<Longrightarrow> a h d operation vm True ban i = a' h d operation vm True ban i)
   \<Longrightarrow> patch_loop a h d ops vm ban i = patch_loop a' h d ops vm ban i"
  by (induction ops arbitrary: h d i) (simp_all cong: sum.case_cong prod.case_cong)

lemma validate_each_cong:
  "(\<And>operation i. f h operation i d None = f' h operation i d None)
   \<Longrightarrow> validate_each f h d sq i = validate_each f' h d sq i"
  by (induction sq arbitrary: i) (simp_all cong: option.case_cong)

lemma clone_operation_op:
  "clone_operation h operation = (Inr operation', h') \<Longrightarrow> op operation' = op operation"
  by (auto simp: clone_operation_def split: prod.splits sum.splits)

lemma clone_sequence_op:
  "clone_sequence h sq = (Inr sq', h') \<Longrightarrow> map op sq' = map op sq"
  by (induction sq arbitrary: h sq' h')
     (auto split: prod.splits sum.splits dest: clone_operation_op)

lemma validate_attempt_plain:
  assumes "plain_sequence sq"
  shows "validate_attempt (applyOperation_at H reg (Suc (Suc n))) (validator_at H reg (Suc n)) h sq d e
         = validate_attempt (applyOperation_at H reg (Suc (Suc 0))) (validator_at H reg (Suc 0)) h sq d e"
proof (cases "truthy d")
  case True
  have "applyPatch_with (applyOperation_at H reg (Suc (Suc n))) h2 d' sq' vm True True
        = applyPatch_with (applyOperation_at H reg (Suc (Suc 0))) h2 d' sq' vm True True"
    if "map op sq' = map op sq" for h2 d' sq' vm
  proof -
    have "plain_sequence sq'" using assms that by (simp add: plain_sequence_def)
    then have "\<And>operation. operation \<in> set sq' \<Longrightarrow> op operation \<noteq> ''move'' \<and> op operation \<noteq> ''copy''"
      by (auto simp: plain_sequence_def)
    then have "patch_loop (applyOperation_at H reg (Suc (Suc n))) h3 d3 sq' vm True 0
               = patch_loop (applyOperation_at H reg (Suc (Suc 0))) h3 d3 sq' vm True 0" for h3 d3
      by (intro patch_loop_cong apply_at_other) auto
    then show ?thesis
      unfolding applyPatch_with_def by (simp cong: sum.case_cong prod.case_cong)
  qed
  then show ?thesis
    using True
    by (auto simp: validate_attempt_def split: prod.splits sum.splits dest!: clone_sequence_op)
next
  case False
  have "validate_each (validator_at H reg (Suc n)) h d sq 0 = validate_each (validator_at H reg (Suc 0)) h d sq 0"
    unfolding validator_at.simps
    by (intro validate_each_cong validator_falsy False)
  then show ?thesis using False by (cases e) (simp_all add: validate_attempt_def)
qed

lemma validate_at_plain:
  "plain_sequence sq \<Longrightarrow>
   validate_at H reg (Suc (Suc (Suc n))) h sq d e = validate_at H reg (Suc (Suc (Suc 0))) h sq d e"
proof -
  assume p: "plain_sequence sq"
  have v: "validator_at H reg (Suc (Suc n)) h' operation i d' None = validator_at H reg (Suc (Suc 0)) h' operation i d' None"
    if "\<not> truthy d'" for h' operation i d'
    unfolding validator_at.simps using that by (intro validator_falsy)
  have "validate_attempt (applyOperation_at H reg (Suc (Suc n))) (validator_at H reg (Suc (Suc n))) h sq d e
        = validate_attempt (applyOperation_at H reg (Suc (Suc n))) (validator_at H reg (Suc n)) h sq d e"
  proof (cases "truthy d")
    case True then show ?thesis by (simp add: validate_attempt_def)
  next
    case False
    have "validate_each (validator_at H reg (Suc (Suc n))) h d sq 0 = validate_each (validator_at H reg (Suc n)) h d sq 0"
      unfolding validator_at.simps by (intro validate_each_cong validator_falsy False)
    then show ?thesis using False by (cases e) (simp_all add: validate_attempt_def)
  qed
  also have "\<dots> = validate_attempt (applyOperation_at H reg (Suc (Suc 0))) (validator_at H reg (Suc 0)) h sq d e"
    using p by (rule validate_attempt_plain)
  also have "\<dots> = validate_attempt (applyOperation_at H reg (Suc (Suc 0))) (validator_at H reg (Suc (Suc 0))) h sq d e"
  proof (cases "truthy d")
    case True then show ?thesis by (simp add: validate_attempt_def)
  next
    case False
    have "validate_each (validator_at H reg (Suc 0)) h d sq 0 = validate_each (validator_at H reg (Suc (Suc 0))) h d sq 0"
      unfolding validator_at.simps by (intro validate_each_cong validator_falsy False)
    then show ?thesis using False by (cases e) (simp_all add: validate_attempt_def)
  qed
  finally show ?thesis by (simp add: validate_with_def validate_at.simps)
qed

lemma validator_at_deep:
  "validator_at H reg (Suc (Suc (Suc (Suc n)))) = validator_at H reg (Suc (Suc (Suc (Suc 0))))"
  unfolding validator_at.simps(2) [of H reg "Suc (Suc (Suc n))"]
            validator_at.simps(2) [of H reg "Suc (Suc (Suc 0))"]
  by (intro validator_check_cong validate_at_plain) (simp add: plain_sequence_def plain_op_def)

lemma applyOperation_at_deep:
  "applyOperation_at H reg (Suc (Suc (Suc (Suc (Suc n))))) = applyOperation_at H reg (Suc (Suc (Suc (Suc (Suc 0)))))"
  unfolding applyOperation_at.simps(2) [of H reg "Suc (Suc (Suc (Suc n)))"]
            applyOperation_at.simps(2) [of H reg "Suc (Suc (Suc (Suc 0)))"]
  by (simp only: validator_at_deep [of H reg n]
        body_agree [OF simple_agree_at [of H reg "Suc (Suc (Suc n))" "Suc (Suc (Suc 0))"]])

lemma validate_at_deep:
  "validate_at H reg (Suc (Suc (Suc (Suc (Suc (Suc n)))))) = validate_at H reg (Suc (Suc (Suc (Suc (Suc (Suc 0))))))"
  unfolding validate_at.simps(2) [of H reg "Suc (Suc (Suc (Suc (Suc n))))"]
            validate_at.simps(2) [of H reg "Suc (Suc (Suc (Suc (Suc 0))))"]
  by (simp only: applyOperation_at_deep [of H reg n] validator_at_deep [of H reg "Suc n"]
                 validator_at_deep [of H reg "Suc 0"])

lemma eight: "(8::nat) = Suc (Suc (Suc (Suc (Suc (Suc (Suc (Suc 0)))))))"
  by simp

lemma applyOperation_at_8: "applyOperation_at H reg (Suc 8) = applyOperation_at H reg 8"
  by (simp only: eight applyOperation_at_deep [of H reg "Suc (Suc (Suc (Suc 0)))"]
                 applyOperation_at_deep [of H reg "Suc (Suc (Suc 0))"])

lemma validator_at_8: "validator_at H reg (Suc (Suc 8)) = validator_at H reg 8"
  by (simp only: eight validator_at_deep [of H reg "Suc (Suc (Suc (Suc (Suc (Suc 0)))))"]
                 validator_at_deep [of H reg "Suc (Suc (Suc (Suc 0)))"])

text \<open>The recursive equations of the source hold for the exported functions.\<close>

lemma applyOperation_unfold:
  "applyOperation H reg = applyOperation_body (applyOperation H reg) (validator H reg) H reg"
  using applyOperation_at_8 [of H reg]
  by (simp only: applyOperation_def validator_def applyOperation_at.simps(2))

lemma validate_unfold:
  "validate H reg = validate_with (applyOperation H reg) (validator H reg)"
  by (rule validate_def)

lemma validator_unfold:
  "validator H reg = validator_with H (\<lambda>h sequence document. validate H reg h sequence document None) reg"
  using validator_at_8 [of H reg]
  by (simp only: applyOperation_def validator_def validate_def validator_at.simps(2) validate_at.simps(2))

subsection \<open>The caller's cells\<close>

lemma kept_refl: "L \<le> length h \<Longrightarrow> kept B L h h"
  by (simp add: kept_def)

lemma kept_trans: "kept B L h h' \<Longrightarrow> kept B L h' h'' \<Longrightarrow> kept B L h h''"
  by (auto simp: kept_def)

lemma kept_append: "L \<le> length h \<Longrightarrow> kept B L h (h @ cells)"
  by (simp add: kept_def nth_append)

lemma kept_length: "kept B L h h' \<Longrightarrow> L \<le> length h'"
  by (simp add: kept_def)


lemma loose_prim [simp]:
  "loose B L Undefined" "loose B L Null" "loose B L (Bool b)" "loose B L (Num i)"
  "loose B L NaN" "loose B L (Str s)"
  by (simp_all add: loose_def addr_of_def)

lemma loose_addr: "addr_of v = Some a \<Longrightarrow> loose B L v \<longleftrightarrow> a \<in> B \<or> L \<le> a"
  by (simp add: loose_def)

lemma loose_Ref [simp]: "loose B L (Ref a) \<longleftrightarrow> a \<in> B \<or> L \<le> a"
  by (simp add: loose_def addr_of_def)

lemma loose_Fun [simp]: "loose B L (Fun a) \<longleftrightarrow> a \<in> B \<or> L \<le> a"
  by (simp add: loose_def addr_of_def)

lemma loose_none: "addr_of v = None \<Longrightarrow> loose B L v"
  by (simp add: loose_def)

lemma loose_weaken: "loose B L v \<Longrightarrow> L' \<le> L \<Longrightarrow> loose B L' v"
  by (auto simp: loose_def split: option.splits)

lemma loose_fresh: "loose {} L v \<Longrightarrow> L' \<le> L \<Longrightarrow> loose B L' v"
  by (auto simp: loose_def split: option.splits)

lemma host_in_loose: "host_in H B \<Longrightarrow> loose B L (inherited H h obj name)"
  unfolding host_in_def loose_def
proof -
  assume a: "\<forall>h obj name. case addr_of (inherited H h obj name) of None \<Rightarrow> True | Some a \<Rightarrow> a \<in> B"
  from a [rule_format, of h obj name]
  show "case addr_of (inherited H h obj name) of None \<Rightarrow> True | Some a \<Rightarrow> a \<in> B \<or> L \<le> a"
    by (cases "addr_of (inherited H h obj name)") auto
qed

lemma closed_cell:
  "closed B L h \<Longrightarrow> a < length h \<Longrightarrow> a \<in> B \<or> L \<le> a \<Longrightarrow> v \<in> set (cell_vals (h ! a))
   \<Longrightarrow> loose B L v"
  unfolding closed_def by blast

lemma closed_update:
  assumes "closed B L h" "a \<in> B \<or> L \<le> a" "a < length h"
    and "\<And>v. v \<in> set (cell_vals c) \<Longrightarrow> v \<in> set (cell_vals (h ! a)) \<or> loose B L v"
  shows "closed B L (h[a := c])"
  unfolding closed_def
proof (intro allI impI ballI)
  fix b v
  assume b: "b < length (h[a := c])" "b \<in> B \<or> L \<le> b" and v: "v \<in> set (cell_vals (h[a := c] ! b))"
  show "loose B L v"
  proof (cases "b = a")
    case True
    with v assms(3) have "v \<in> set (cell_vals c)" by simp
    with assms(4) have "v \<in> set (cell_vals (h ! a)) \<or> loose B L v" by blast
    with assms(1,2,3) show ?thesis by (auto dest: closed_cell)
  next
    case False
    with v b assms(1) show ?thesis by (auto dest: closed_cell)
  qed
qed

lemma closed_append:
  assumes "closed B L h" "\<And>v. v \<in> set (cell_vals c) \<Longrightarrow> loose B L v"
  shows "closed B L (h @ [c])"
  unfolding closed_def
proof (intro allI impI ballI)
  fix b v
  assume b: "b < length (h @ [c])" "b \<in> B \<or> L \<le> b" and v: "v \<in> set (cell_vals ((h @ [c]) ! b))"
  show "loose B L v"
  proof (cases "b < length h")
    case True
    with v b assms(1) show ?thesis by (auto simp: nth_append dest: closed_cell)
  next
    case False
    with b have "b = length h" by simp
    with v assms(2) show ?thesis by simp
  qed
qed

subsection \<open>Reads and writes of properties\<close>

lemma map_of_in: "map_of props name = Some v \<Longrightarrow> v \<in> set (map snd props)"
  by (auto dest!: map_of_SomeD intro: rev_image_eqI)

lemma own_or_inherited_cases:
  "own_or_inherited H h obj props name \<in> set (map snd props)
   \<or> own_or_inherited H h obj props name = inherited H h obj name"
  by (auto simp: own_or_inherited_def split: option.splits dest: map_of_in)

lemma cell_prop_cases:
  assumes "cell_prop H h obj a name = Inr v"
  shows "a < length h \<and> (v \<in> set (cell_vals (h ! a)) \<or> v = inherited H h obj name
                          \<or> addr_of v = None)"
proof -
  from assms have a: "a < length h" by (auto simp: cell_prop_def cell_def split: if_splits)
  show ?thesis
  proof (cases "h ! a")
    case (Arr els props)
    with assms a own_or_inherited_cases [of H h obj props name] show ?thesis
      by (auto simp: cell_prop_def cell_def cell_vals_def addr_of_def split: option.splits if_splits)
  next
    case (Obj props)
    with assms a own_or_inherited_cases [of H h obj props name] show ?thesis
      by (auto simp: cell_prop_def cell_def cell_vals_def)
  qed
qed

lemma get_prop_cases:
  assumes "get_prop H h ob k = Inr v"
  shows "v = inherited H h ob (key_string k) \<or> addr_of v = None
       \<or> (\<exists>a. addr_of ob = Some a \<and> a < length h \<and> v \<in> set (cell_vals (h ! a)))"
proof (cases ob)
  case (Ref a)
  with assms cell_prop_cases [of H h ob a "key_string k" v] show ?thesis
    by (auto simp: get_prop_def addr_of_def)
next
  case (Fun a)
  with assms cell_prop_cases [of H h ob a "key_string k" v] show ?thesis
    by (auto simp: get_prop_def addr_of_def)
next
  case (Str s)
  with assms show ?thesis
    by (auto simp: get_prop_def Let_def addr_of_def split: option.splits if_splits)
qed (use assms in \<open>auto simp: get_prop_def\<close>)

lemma get_prop_loose:
  assumes "closed B L h" "host_in H B" "loose B L ob" "get_prop H h ob k = Inr v"
  shows "loose B L v"
  using get_prop_cases [OF assms(4)]
proof (elim disjE exE conjE)
  assume "v = inherited H h ob (key_string k)"
  with assms(2) show ?thesis by (simp add: host_in_loose)
next
  assume "addr_of v = None"
  then show ?thesis by (rule loose_none)
next
  fix a assume a: "addr_of ob = Some a" "a < length h" "v \<in> set (cell_vals (h ! a))"
  from a(1) assms(3) have "a \<in> B \<or> L \<le> a" by (simp add: loose_addr)
  with assms(1) a(2,3) show ?thesis by (auto dest: closed_cell)
qed

lemma get_prop_error: "get_prop H h ob k = Inl e \<Longrightarrow> \<exists>m. e = TypeError m"
  by (cases ob)
     (auto simp: get_prop_def cell_prop_def Let_def split: option.splits hobj.splits)

lemma list_update_in: "x \<in> set (els[i := v]) \<Longrightarrow> x \<in> set els \<or> x = v"
  using set_update_subset_insert [of els i v] by auto

lemma set_index_in: "x \<in> set (set_index els i v) \<Longrightarrow> x \<in> set els \<or> x = v \<or> x = Undefined"
  by (auto simp: set_index_def dest: list_update_in split: if_splits)

lemma resize_in: "x \<in> set (resize els n) \<Longrightarrow> x \<in> set els \<or> x = Undefined"
  by (auto simp: resize_def dest: in_set_takeD split: if_splits)

lemma update_in: "(k', x) \<in> set (AList.update k v ps) \<Longrightarrow> x = v \<or> x \<in> snd ` set ps"
  by (induction ps) (force split: if_splits)+

lemma delete_in: "(k', x) \<in> set (AList.delete k ps) \<Longrightarrow> x \<in> snd ` set ps"
  by (induction ps) (force split: if_splits)+

lemma splice_vals:
  "splice els start dc items = (els', gone)
   \<Longrightarrow> set els' \<subseteq> set els \<union> set items \<and> set gone \<subseteq> set els"
  by (auto simp: splice_def Let_def dest: in_set_takeD in_set_dropD)

lemma one_writeI:
  "addr_of ob = Some a \<Longrightarrow> a < length h
   \<Longrightarrow> set (cell_vals c) \<subseteq> set (cell_vals (h ! a)) \<union> set vs \<union> {Undefined}
   \<Longrightarrow> one_write h ob vs (h[a := c])"
  by (simp add: one_write_def)

lemma cell_write_Obj:
  assumes "cell_write H h ob a name v = Inr h'" "h ! a = Obj props" "a < length h"
  shows "set_proto H h ob v = Inr h' \<or> h' = h[a := Obj (AList.update name v props)]"
  using assms by (auto simp: cell_write_def cell_def split: if_splits)

lemma cell_write_Arr:
  assumes "cell_write H h ob a name v = Inr h'" "h ! a = Arr els props" "a < length h"
  shows "(\<exists>i. h' = h[a := Arr (set_index els i v) props])
       \<or> (\<exists>n. h' = h[a := Arr (resize els n) props])
       \<or> set_proto H h ob v = Inr h'
       \<or> h' = h[a := Arr els (AList.update name v props)]"
  using assms by (auto simp: cell_write_def cell_def split: option.splits if_splits)

lemma cell_write_shape:
  assumes "cell_write H h ob a name v = Inr h'" "addr_of ob = Some a" "proto_local H"
  shows "h' = h \<or> one_write h ob [v] h'"
proof -
  from assms(1) have al: "a < length h"
    by (auto simp: cell_write_def cell_def split: if_splits)
  have setter: "h' = h \<or> one_write h ob [v] h'" if "set_proto H h ob v = Inr h'"
    using that assms(3) unfolding proto_local_def by blast
  show ?thesis
  proof (cases "h ! a")
    case (Arr els props)
    from cell_write_Arr [OF assms(1) Arr al] show ?thesis
    proof (elim disjE exE)
      fix i assume idx: "h' = h[a := Arr (set_index els i v) props]"
      have "one_write h ob [v] h'" unfolding idx
        by (rule one_writeI [OF assms(2) al])
           (use Arr in \<open>auto simp: cell_vals_def dest: set_index_in\<close>)
      then show ?thesis by simp
    next
      fix n assume len: "h' = h[a := Arr (resize els n) props]"
      have "one_write h ob [v] h'" unfolding len
        by (rule one_writeI [OF assms(2) al])
           (use Arr in \<open>auto simp: cell_vals_def dest: resize_in\<close>)
      then show ?thesis by simp
    next
      assume "set_proto H h ob v = Inr h'" then show ?thesis by (rule setter)
    next
      assume named: "h' = h[a := Arr els (AList.update name v props)]"
      have "one_write h ob [v] h'" unfolding named
        by (rule one_writeI [OF assms(2) al])
           (use Arr in \<open>auto simp: cell_vals_def dest: update_in\<close>)
      then show ?thesis by simp
    qed
  next
    case (Obj props)
    from cell_write_Obj [OF assms(1) Obj al] show ?thesis
    proof (elim disjE)
      assume "set_proto H h ob v = Inr h'" then show ?thesis by (rule setter)
    next
      assume named: "h' = h[a := Obj (AList.update name v props)]"
      have "one_write h ob [v] h'" unfolding named
        by (rule one_writeI [OF assms(2) al])
           (use Obj in \<open>auto simp: cell_vals_def dest: update_in\<close>)
      then show ?thesis by simp
    qed
  qed
qed

lemma set_prop_write:
  assumes "set_prop H h ob k v = Inr h'" "proto_local H"
  shows "h' = h \<or> one_write h ob [v] h'"
proof (cases ob)
  case (Ref a)
  with assms(1) have "cell_write H h ob a (key_string k) v = Inr h'" by (simp add: set_prop_def)
  from cell_write_shape [OF this _ assms(2)] Ref show ?thesis by (simp add: addr_of_def)
next
  case (Fun a)
  with assms(1) have "cell_write H h ob a (key_string k) v = Inr h'" by (simp add: set_prop_def)
  from cell_write_shape [OF this _ assms(2)] Fun show ?thesis by (simp add: addr_of_def)
qed (use assms(1) in \<open>auto simp: set_prop_def\<close>)

lemma cell_delete_Arr:
  assumes "cell_delete h a name = Inr h'" "h ! a = Arr els props" "a < length h"
  shows "h' = h \<or> (\<exists>i. h' = h[a := Arr (els[i := Undefined]) props])
       \<or> h' = h[a := Arr els (AList.delete name props)]"
  using assms by (auto simp: cell_delete_def cell_def split: option.splits if_splits)

lemma cell_delete_shape:
  assumes "cell_delete h a name = Inr h'" "addr_of ob = Some a"
  shows "h' = h \<or> one_write h ob [] h'"
proof -
  from assms(1) have al: "a < length h"
    by (auto simp: cell_delete_def cell_def split: if_splits)
  show ?thesis
  proof (cases "h ! a")
    case (Arr els props)
    from cell_delete_Arr [OF assms(1) Arr al] show ?thesis
    proof (elim disjE exE)
      assume "h' = h" then show ?thesis by simp
    next
      fix i assume idx: "h' = h[a := Arr (els[i := Undefined]) props]"
      have "one_write h ob [] h'" unfolding idx
        by (rule one_writeI [OF assms(2) al])
           (use Arr in \<open>auto simp: cell_vals_def dest: list_update_in\<close>)
      then show ?thesis by simp
    next
      assume named: "h' = h[a := Arr els (AList.delete name props)]"
      have "one_write h ob [] h'" unfolding named
        by (rule one_writeI [OF assms(2) al])
           (use Arr in \<open>auto simp: cell_vals_def dest: delete_in\<close>)
      then show ?thesis by simp
    qed
  next
    case (Obj props)
    with assms(1) al have h': "h' = h[a := Obj (AList.delete name props)]"
      by (auto simp: cell_delete_def cell_def)
    have "one_write h ob [] h'" unfolding h'
      by (rule one_writeI [OF assms(2) al])
         (use Obj in \<open>auto simp: cell_vals_def dest: delete_in\<close>)
    then show ?thesis by simp
  qed
qed

lemma delete_prop_write: "delete_prop h ob k = Inr h' \<Longrightarrow> h' = h \<or> one_write h ob [] h'"
proof (cases ob)
  case (Ref a)
  assume "delete_prop h ob k = Inr h'"
  with Ref have "cell_delete h a (key_string k) = Inr h'" by (simp add: delete_prop_def)
  from cell_delete_shape [OF this] Ref show ?thesis by (simp add: addr_of_def)
next
  case (Fun a)
  assume "delete_prop h ob k = Inr h'"
  with Fun have "cell_delete h a (key_string k) = Inr h'" by (simp add: delete_prop_def)
  from cell_delete_shape [OF this] Fun show ?thesis by (simp add: addr_of_def)
qed (auto simp: delete_prop_def Let_def split: if_splits)

lemma arr_splice_write:
  assumes "arr_splice h ar start dc items = (r, h')"
  shows "h' = h \<or> one_write h ar items h'"
proof (cases "\<exists>a els props. ar = Ref a \<and> a < length h \<and> h ! a = Arr els props")
  case True
  then obtain a els props where a: "ar = Ref a" "a < length h" "h ! a = Arr els props" by blast
  obtain els' gone where sp: "splice els start dc items = (els', gone)" by (cases "splice els start dc items")
  from a(1) have ad: "addr_of ar = Some a" by (simp add: addr_of_def)
  from splice_vals [OF sp] a sp assms have "h' = h[a := Arr els' props]" "set els' \<subseteq> set els \<union> set items"
    by (auto simp: arr_splice_def cell_def)
  then have "one_write h ar items h'"
    using a one_writeI [OF ad a(2), of "Arr els' props" items] by (auto simp: cell_vals_def)
  then show ?thesis by simp
next
  case False
  with assms show ?thesis
    by (auto simp: arr_splice_def cell_def split: val.splits hobj.splits if_splits)
qed

lemma one_write_length: "one_write h ob vs h' \<Longrightarrow> length h' = length h"
  by (auto simp: one_write_def)

lemma one_write_kept:
  assumes "one_write h ob vs h'" "loose B L ob" "L \<le> length h"
  shows "kept B L h h'"
proof -
  from assms(1) obtain a where a: "addr_of ob = Some a" "length h' = length h"
    "\<And>b. b \<noteq> a \<Longrightarrow> h' ! b = h ! b"
    by (auto simp: one_write_def)
  from a(1) assms(2) have "a \<in> B \<or> L \<le> a" by (simp add: loose_addr)
  then have "h' ! b = h ! b" if "b < L" "b \<notin> B" for b
    using that by (intro a(3)) auto
  with a(2) assms(3) show ?thesis by (simp add: kept_def)
qed

lemma one_write_closed:
  assumes "one_write h ob vs h'" "closed B L h" "loose B L ob"
    and "\<And>v. v \<in> set vs \<Longrightarrow> loose B L v"
  shows "closed B L h'"
proof -
  from assms(1) obtain a where a: "addr_of ob = Some a" "a < length h" "length h' = length h"
    "\<And>b. b \<noteq> a \<Longrightarrow> h' ! b = h ! b"
    "set (cell_vals (h' ! a)) \<subseteq> set (cell_vals (h ! a)) \<union> set vs \<union> {Undefined}"
    by (auto simp: one_write_def)
  from a(1) assms(3) have La: "a \<in> B \<or> L \<le> a" by (simp add: loose_addr)
  show ?thesis
    unfolding closed_def
  proof (intro allI impI ballI)
    fix b v
    assume b: "b < length h'" "b \<in> B \<or> L \<le> b" and v: "v \<in> set (cell_vals (h' ! b))"
    show "loose B L v"
    proof (cases "b = a")
      case True
      with v a(5) have "v \<in> set (cell_vals (h ! a)) \<or> v \<in> set vs \<or> v = Undefined" by auto
      with assms(2,4) La a(2) show ?thesis by (auto dest: closed_cell)
    next
      case False
      with v b a(3,4) assms(2) show ?thesis by (auto dest: closed_cell)
    qed
  qed
qed

subsection \<open>Cloning allocates and never writes\<close>

lemma closed_fresh: "closed {} (length h) h"
  by (simp add: closed_def)

lemma grows_refl [simp]: "grows h h"
  by (simp add: grows_def)

lemma grows_trans: "grows h h1 \<Longrightarrow> grows h1 h2 \<Longrightarrow> grows h h2"
  by (auto simp: grows_def)

lemma grows_append [simp]: "grows h (h @ cells)"
  by (simp add: grows_def)

lemma grows_length: "grows h h' \<Longrightarrow> length h \<le> length h'"
  by (auto simp: grows_def)

lemma grows_nth: "grows h h' \<Longrightarrow> a < length h \<Longrightarrow> h' ! a = h ! a"
  by (auto simp: grows_def nth_append)

lemma grows_kept: "grows h h' \<Longrightarrow> L \<le> length h \<Longrightarrow> kept B L h h'"
  by (auto simp: grows_def intro: kept_append)

lemma grows_closed:
  assumes "grows h h'" "closed B L h" "L \<le> length h" "closed {} (length h) h'"
  shows "closed B L h'"
  unfolding closed_def
proof (intro allI impI ballI)
  fix b v
  assume b: "b < length h'" "b \<in> B \<or> L \<le> b" and v: "v \<in> set (cell_vals (h' ! b))"
  show "loose B L v"
  proof (cases "b < length h")
    case True
    with v assms(1) have "v \<in> set (cell_vals (h ! b))" by (simp add: grows_nth)
    with assms(2) True b(2) show ?thesis by (auto dest: closed_cell)
  next
    case False
    with assms(4) b(1) v have "loose {} (length h) v" by (auto dest: closed_cell)
    then show ?thesis using assms(3) by (rule loose_fresh)
  qed
qed

lemma parse_inv:
  "\<forall>v h'. parse j h = (v, h') \<longrightarrow>
      grows h h' \<and> loose {} (length h) v \<and> closed {} (length h) h'"
  "\<forall>vs h'. parse_list js h = (vs, h') \<longrightarrow>
      grows h h' \<and> (\<forall>v\<in>set vs. loose {} (length h) v) \<and> closed {} (length h) h'"
  "\<forall>qs h'. parse_props ps h = (qs, h') \<longrightarrow>
      grows h h' \<and> (\<forall>v\<in>set (map snd qs). loose {} (length h) v) \<and> closed {} (length h) h'"
proof (induction j h and js h and ps h rule: parse_parse_list_parse_props.induct)
  case (5 js h)
  show ?case
  proof (intro allI impI)
    fix v h' assume p: "parse (JArr js) h = (v, h')"
    obtain vs h1 where l: "parse_list js h = (vs, h1)" by (cases "parse_list js h")
    with 5 have ih: "grows h h1" "\<forall>v\<in>set vs. loose {} (length h) v"
        "closed {} (length h) h1" by auto
    from p l have r: "v = Ref (length h1)" "h' = h1 @ [Arr vs []]" by auto
    have "closed {} (length h) (h1 @ [Arr vs []])"
      using ih(3) by (rule closed_append) (use ih(2) in \<open>auto simp: cell_vals_def\<close>)
    with ih(1) r show "grows h h' \<and> loose {} (length h) v \<and> closed {} (length h) h'"
      using grows_length [OF ih(1)] by (auto intro: grows_trans [OF ih(1)])
  qed
next
  case (6 ps h)
  show ?case
  proof (intro allI impI)
    fix v h' assume p: "parse (JObj ps) h = (v, h')"
    obtain qs h1 where l: "parse_props ps h = (qs, h1)" by (cases "parse_props ps h")
    with 6 have ih: "grows h h1" "\<forall>v\<in>set (map snd qs). loose {} (length h) v"
        "closed {} (length h) h1" by auto
    from p l have r: "v = Ref (length h1)" "h' = h1 @ [Obj qs]" by auto
    have "closed {} (length h) (h1 @ [Obj qs])"
      using ih(3) by (rule closed_append) (use ih(2) in \<open>auto simp: cell_vals_def\<close>)
    with ih(1) r show "grows h h' \<and> loose {} (length h) v \<and> closed {} (length h) h'"
      using grows_length [OF ih(1)] by (auto intro: grows_trans [OF ih(1)])
  qed
next
  case (8 j js h)
  show ?case
  proof (intro allI impI)
    fix vs h' assume p: "parse_list (j # js) h = (vs, h')"
    obtain v h1 where a: "parse j h = (v, h1)" by (cases "parse j h")
    obtain ws h2 where b: "parse_list js h1 = (ws, h2)" by (cases "parse_list js h1")
    from 8(1) a have ih1: "grows h h1" "loose {} (length h) v" "closed {} (length h) h1"
      by auto
    from 8(2) [OF a [symmetric]] b
    have ih2: "grows h1 h2" "\<forall>v\<in>set ws. loose {} (length h1) v" "closed {} (length h1) h2"
      by auto
    from p a b have r: "vs = v # ws" "h' = h2" by auto
    have le: "length h \<le> length h1" using ih1(1) by (rule grows_length)
    have c: "closed {} (length h) h2"
      using ih2(1) ih1(3) le ih2(3) by (rule grows_closed)
    have f: "\<forall>x\<in>set (v # ws). loose {} (length h) x"
      using ih1(2) ih2(2) le by (auto intro: loose_fresh)
    from c f r ih1(1) ih2(1)
    show "grows h h' \<and> (\<forall>v\<in>set vs. loose {} (length h) v) \<and> closed {} (length h) h'"
      by (auto intro: grows_trans)
  qed
next
  case (10 p ps h)
  show ?case
  proof (intro allI impI)
    fix qs h' assume q: "parse_props (p # ps) h = (qs, h')"
    obtain v h1 where a: "parse (snd p) h = (v, h1)" by (cases "parse (snd p) h")
    obtain ws h2 where b: "parse_props ps h1 = (ws, h2)" by (cases "parse_props ps h1")
    from 10(1) a have ih1: "grows h h1" "loose {} (length h) v" "closed {} (length h) h1"
      by auto
    from 10(2) [OF a [symmetric]] b
    have ih2: "grows h1 h2" "\<forall>v\<in>set (map snd ws). loose {} (length h1) v"
        "closed {} (length h1) h2"
      by auto
    from q a b have r: "qs = (fst p, v) # ws" "h' = h2" by auto
    have le: "length h \<le> length h1" using ih1(1) by (rule grows_length)
    have c: "closed {} (length h) h2"
      using ih2(1) ih1(3) le ih2(3) by (rule grows_closed)
    have f: "\<forall>x\<in>set (map snd ((fst p, v) # ws)). loose {} (length h) x"
      using ih1(2) ih2(2) le by (auto intro: loose_fresh)
    from c f r ih1(1) ih2(1)
    show "grows h h' \<and> (\<forall>v\<in>set (map snd qs). loose {} (length h) v)
          \<and> closed {} (length h) h'"
      by (auto intro: grows_trans)
  qed
qed (simp_all add: closed_fresh)

text \<open>A clone is made of new cells, except that a function is handed back as it is.\<close>

lemma deepClone_grows:
  assumes "deepClone h v = (r, h')"
  shows "grows h h' \<and> closed {} (length h) h'
       \<and> (\<forall>c. r = Inr c \<longrightarrow> loose {} (length h) c \<or> (\<exists>a. v = Fun a \<and> c = v))"
proof (cases "is_object_type v")
  case True
  show ?thesis
  proof (cases "stringify (length h) h v")
    case None
    with True assms show ?thesis by (auto simp: deepClone_def closed_fresh)
  next
    case (Some j)
    obtain c h1 where p: "parse j h = (c, h1)" by (cases "parse j h")
    with True Some assms have "r = Inr c" "h' = h1" by (simp_all add: deepClone_def)
    with parse_inv(1) [of j h] p show ?thesis by simp
  qed
next
  case False
  with assms show ?thesis
    by (cases v) (auto simp: deepClone_def is_object_type_def closed_fresh split: if_splits)
qed

lemma deepClone_error: "deepClone h v = (Inl e, h') \<Longrightarrow> \<exists>m. e = TypeError m"
  by (auto simp: deepClone_def split: if_splits option.splits prod.splits)

lemma ext_refl: "sep B L h \<Longrightarrow> extends B L h h"
  by (simp add: sep_def extends_def kept_refl)

lemma ext_trans: "extends B L h h' \<Longrightarrow> extends B L h' h'' \<Longrightarrow> extends B L h h''"
  by (auto simp: extends_def intro: kept_trans)

lemma ext_sep: "extends B L h h' \<Longrightarrow> sep B L h'"
  by (auto simp: extends_def sep_def dest: kept_length)

lemma ext_kept: "extends B L h h' \<Longrightarrow> kept B L h h'"
  by (simp add: extends_def)

lemma ext_write:
  assumes "h' = h \<or> one_write h ob vs h'" "sep B L h" "loose B L ob"
    and "\<And>v. v \<in> set vs \<Longrightarrow> loose B L v"
  shows "extends B L h h'"
proof (cases "h' = h")
  case True
  with assms(2) show ?thesis by (simp add: ext_refl)
next
  case False
  with assms(1) have w: "one_write h ob vs h'" by simp
  from assms(2) have s: "L \<le> length h" "closed B L h" by (simp_all add: sep_def)
  from one_write_kept [OF w assms(3) s(1)] one_write_closed [OF w s(2) assms(3) assms(4)]
  show ?thesis by (simp add: extends_def)
qed

lemma ext_grows:
  assumes "grows h h'" "closed {} (length h) h'" "sep B L h"
  shows "extends B L h h'"
proof -
  from assms(3) have L: "L \<le> length h" "closed B L h" by (auto simp: sep_def)
  from assms(1) L(2,1) assms(2) have "closed B L h'" by (rule grows_closed)
  with assms(1) L(1) show ?thesis by (simp add: extends_def grows_kept)
qed

lemma ext_clone:
  assumes "deepClone h v = (r, h')" "sep B L h" "loose B L v \<or> (\<forall>a. v \<noteq> Fun a)"
  shows "extends B L h h' \<and> (\<forall>c. r = Inr c \<longrightarrow> loose B L c)"
proof -
  from deepClone_grows [OF assms(1)]
  have g: "grows h h'" "closed {} (length h) h'"
    "\<And>c. r = Inr c \<Longrightarrow> loose {} (length h) c \<or> (\<exists>a. v = Fun a \<and> c = v)" by auto
  from assms(2) have L: "L \<le> length h" by (simp add: sep_def)
  have "loose B L c" if "r = Inr c" for c
    using g(3) [OF that] assms(3) L by (auto intro: loose_fresh)
  with ext_grows [OF g(1,2) assms(2)] show ?thesis by blast
qed

subsection \<open>The rounds of the traversal\<close>

lemma validate_hook_off: "\<not> c_validate C \<Longrightarrow> validate_hook H C w k = Inr (w_fragment w)"
  by (simp add: validate_hook_def)

lemma array_key_keys:
  assumes "array_key H C h ob t k keys g = Inr (k', keys', g')"
  shows "keys' = keys
      \<or> (op (c_operation C) = ''x'' \<and> (\<exists>s. keys' = keys[t - 1 := s]) \<and> (k = KStr ''-'' \<or> k = KStr ''--''))"
  using assms by (auto simp: array_key_def Let_def split: if_splits key.splits)

lemma array_key_error:
  assumes "array_key H C h ob t k keys g = Inl e" "\<not> c_validate C" "op (c_operation C) \<noteq> ''x''"
  shows "\<exists>m. e = TypeError m"
  using assms by (auto simp: array_key_def Let_def split: if_splits key.splits)

lemma array_key_nonempty:
  "array_key H C h ob t k keys g = Inr (k', keys', g') \<Longrightarrow> k' \<noteq> KStr []"
  by (auto simp: array_key_def Let_def split: if_splits key.splits)

lemma step_cases:
  assumes "step H objT arrT C w = R"
  obtains
    (banned) "c_ban C" "banned_key (w_keys w) (w_t w) (current_key (w_keys w) (w_t w))"
      "R = Inl (Inl (TypeError PROTO_ERROR_MSG), w_heap w)"
  | (error) e where "R = Inl (Inl e, w_heap w)"
      "\<not> c_validate C \<Longrightarrow> op (c_operation C) \<noteq> ''x'' \<Longrightarrow> \<exists>m. e = TypeError m"
  | (last_array) k keys' g where
      "\<not> (c_ban C \<and> banned_key (w_keys w) (w_t w) (current_key (w_keys w) (w_t w)))"
      "length (w_keys w) \<le> Suc (w_t w)"
      "R = Inl (finish_array H arrT C (w_heap w) (w_obj w) k keys' (Suc (w_t w)) g)"
      "k \<noteq> KStr []"
  | (last_object)
      "\<not> (c_ban C \<and> banned_key (w_keys w) (w_t w) (current_key (w_keys w) (w_t w)))"
      "length (w_keys w) \<le> Suc (w_t w)"
      "R = Inl (finish_object H objT C (w_heap w) (w_obj w) (current_key (w_keys w) (w_t w))
                  (w_keys w) (Suc (w_t w)) (w_graftPath w))"
  | (inner) k keys' fragment g where
      "\<not> (c_ban C \<and> banned_key (w_keys w) (w_t w) (current_key (w_keys w) (w_t w)))"
      "Suc (w_t w) < length (w_keys w)"
      "R = descend H C (w_heap w) (w_obj w) k keys' (Suc (w_t w)) fragment g"
      "keys' = w_keys w
       \<or> (op (c_operation C) = ''x'' \<and> (\<exists>s. keys' = (w_keys w)[w_t w := s])
          \<and> (current_key (w_keys w) (w_t w) = KStr ''-'' \<or> current_key (w_keys w) (w_t w) = KStr ''--''))"
proof (cases "c_ban C \<and> banned_key (w_keys w) (w_t w) (current_key (w_keys w) (w_t w))")
  case True
  with assms have "R = Inl (Inl (TypeError PROTO_ERROR_MSG), w_heap w)"
    by (simp add: step_def Let_def)
  with True banned show ?thesis by blast
next
  case nb: False
  show ?thesis
  proof (cases "validate_hook H C w (current_key (w_keys w) (w_t w))")
    case (Inl e)
    with nb assms have R: "R = Inl (Inl e, w_heap w)" by (auto simp: step_def Let_def)
    have "\<exists>m. e = TypeError m" if "\<not> c_validate C"
      using Inl validate_hook_off [OF that] by simp
    with R error show ?thesis by blast
  next
    case (Inr fragment)
    show ?thesis
    proof (cases "isArray (w_heap w) (w_obj w)")
      case True
      show ?thesis
      proof (cases "array_key H C (w_heap w) (w_obj w) (Suc (w_t w)) (current_key (w_keys w) (w_t w))
                      (w_keys w) (w_graftPath w)")
        case (Inl e)
        with nb Inr True assms have R: "R = Inl (Inl e, w_heap w)" by (auto simp: step_def Let_def)
        from array_key_error [OF Inl] R error show ?thesis by blast
      next
        case ak: (Inr x)
        obtain k' keys' g where x: "x = (k', keys', g)" by (cases x)
        from array_key_keys [OF ak [unfolded x]]
        have kk: "keys' = w_keys w
           \<or> (op (c_operation C) = ''x'' \<and> (\<exists>s. keys' = (w_keys w)[w_t w := s])
              \<and> (current_key (w_keys w) (w_t w) = KStr ''-'' \<or> current_key (w_keys w) (w_t w) = KStr ''--''))"
          by simp
        show ?thesis
        proof (cases "length (w_keys w) \<le> Suc (w_t w)")
          case True
          with nb Inr \<open>isArray (w_heap w) (w_obj w)\<close> ak x assms
          have "R = Inl (finish_array H arrT C (w_heap w) (w_obj w) k' keys' (Suc (w_t w)) g)"
            by (auto simp: step_def Let_def)
          with nb True array_key_nonempty [OF ak [unfolded x]] last_array show ?thesis by blast
        next
          case False
          with nb Inr \<open>isArray (w_heap w) (w_obj w)\<close> ak x assms
          have "R = descend H C (w_heap w) (w_obj w) k' keys' (Suc (w_t w)) fragment g"
            by (auto simp: step_def Let_def)
          with nb False kk inner [of k' keys' fragment g] show ?thesis by auto
        qed
      qed
    next
      case na: False
      show ?thesis
      proof (cases "length (w_keys w) \<le> Suc (w_t w)")
        case True
        with nb Inr na assms
        have "R = Inl (finish_object H objT C (w_heap w) (w_obj w) (current_key (w_keys w) (w_t w))
                  (w_keys w) (Suc (w_t w)) (w_graftPath w))"
          by (auto simp: step_def Let_def)
        with nb True last_object show ?thesis by blast
      next
        case False
        with nb Inr na assms
        have "R = descend H C (w_heap w) (w_obj w) (current_key (w_keys w) (w_t w)) (w_keys w)
                    (Suc (w_t w)) fragment (w_graftPath w)"
          by (auto simp: step_def Let_def)
        with nb False inner [of "current_key (w_keys w) (w_t w)" "w_keys w" fragment "w_graftPath w"]
        show ?thesis by auto
      qed
    qed
  qed
qed

lemma walk_ends:
  assumes "P w" "\<And>w w'. P w \<Longrightarrow> step H objT arrT C w = Inr w' \<Longrightarrow> P w'"
  shows "\<exists>w'. P w' \<and> step H objT arrT C w' = Inl (walk_loop H objT arrT C w)"
  using assms
proof (induction H objT arrT C w rule: walk_loop.induct)
  case (1 H objT arrT C w)
  show ?case
  proof (cases "step H objT arrT C w")
    case (Inl out)
    then have "walk_loop H objT arrT C w = out" by (subst walk_loop.simps) simp
    with Inl have "step H objT arrT C w = Inl (walk_loop H objT arrT C w)" by simp
    with 1(2) show ?thesis by (intro exI conjI)
  next
    case (Inr w1)
    from 1(3) [OF 1(2) Inr] have "P w1" .
    from 1(1) [OF Inr this 1(3)]
    have ih: "\<exists>w'. P w' \<and> step H objT arrT C w' = Inl (walk_loop H objT arrT C w1)" .
    from Inr have "walk_loop H objT arrT C w = walk_loop H objT arrT C w1"
      by (subst walk_loop.simps) simp
    with ih show ?thesis by simp
  qed
qed

lemma resolve_missing_plain:
  "op (c_operation C) \<noteq> ''x'' \<Longrightarrow> resolve_missing H C h ob k keys t g = (Inr g, h)"
  by (simp add: resolve_missing_def Let_def)

lemma resolve_missing_quiet:
  "op (c_operation C) \<noteq> ''x'' \<or> resolve (c_operation C) \<noteq> Bool True
   \<Longrightarrow> snd (resolve_missing H C h ob k keys t g) = h"
  by (auto simp: resolve_missing_def Let_def split: sum.splits option.splits)

lemma resolve_missing_error:
  "resolve_missing H C h ob k keys t g = (Inl e, h1) \<Longrightarrow> \<not> c_validate C
   \<Longrightarrow> resolve (c_operation C) \<noteq> Bool True \<Longrightarrow> \<exists>m. e = TypeError m"
  by (auto simp: resolve_missing_def Let_def split: sum.splits option.splits if_splits
           dest: get_prop_error)

lemma resolve_missing_shape:
  assumes "resolve_missing H C h ob k keys t g = (r, h1)"
  shows "h1 = h
       \<or> (\<exists>c. new_container H C h (key_string (nth_key keys t)) = Inr c
               \<and> (h1 = h @ [c] \<or> set_prop H (h @ [c]) ob k (Ref (length h)) = Inr h1))"
  using assms
  by (auto simp: resolve_missing_def Let_def split: if_splits sum.splits option.splits)

lemma new_container_closed:
  assumes "new_container H C h s = Inr c" "sep B L h"
  shows "extends B L h (h @ [c])"
proof -
  from assms(1) have c: "\<And>v. v \<in> set (cell_vals c) \<Longrightarrow> v = Undefined"
    by (auto simp: new_container_def Let_def cell_vals_def split: if_splits)
  from assms(2) have L: "L \<le> length h" "closed B L h" by (auto simp: sep_def)
  have "closed B L (h @ [c])"
  proof (rule closed_append [OF L(2)])
    fix v assume "v \<in> set (cell_vals c)"
    then have "v = Undefined" by (rule c)
    then show "loose B L v" by simp
  qed
  with L(1) show ?thesis by (simp add: extends_def kept_append)
qed

lemma resolve_missing_ext:
  assumes "resolve_missing H C h ob k keys t g = (r, h1)" "sep B L h" "loose B L ob"
    and "proto_local H"
  shows "extends B L h h1"
proof (cases "h1 = h")
  case True
  with assms(2) show ?thesis by (simp add: ext_refl)
next
  case False
  with resolve_missing_shape [OF assms(1)] obtain c where
    nc: "new_container H C h (key_string (nth_key keys t)) = Inr c"
    and h1: "h1 = h @ [c] \<or> set_prop H (h @ [c]) ob k (Ref (length h)) = Inr h1"
    by blast
  from new_container_closed [OF nc assms(2)] have e1: "extends B L h (h @ [c])" .
  from assms(2) have L: "L \<le> length h" by (simp add: sep_def)
  from h1 show ?thesis
  proof
    assume "h1 = h @ [c]" with e1 show ?thesis by simp
  next
    assume "set_prop H (h @ [c]) ob k (Ref (length h)) = Inr h1"
    from set_prop_write [OF this assms(4)]
    have sw: "h1 = h @ [c] \<or> one_write (h @ [c]) ob [Ref (length h)] h1" .
    have sp: "sep B L (h @ [c])" using e1 by (rule ext_sep)
    have "extends B L (h @ [c]) h1"
      by (rule ext_write [OF sw sp assms(3)]) (use L in simp)
    with e1 show ?thesis by (rule ext_trans)
  qed
qed

lemma descend_error: "descend H C h ob k keys t fragment g = Inl out \<Longrightarrow> \<exists>e h1. out = (Inl e, h1)"
  by (auto simp: descend_def split: prod.splits sum.splits if_splits)

lemma descend_quiet:
  assumes "op (c_operation C) \<noteq> ''x'' \<or> resolve (c_operation C) \<noteq> Bool True"
    and "descend H C h ob k keys t fragment g = R"
  shows "(\<exists>e. R = Inl (Inl e, h) \<and> (\<not> c_validate C \<longrightarrow> (\<exists>m. e = TypeError m)))
       \<or> (\<exists>w'. R = Inr w' \<and> w_heap w' = h \<and> w_keys w' = keys \<and> w_t w' = t
                \<and> get_prop H h ob k = Inr (w_obj w'))"
proof -
  obtain r h1 where rm: "resolve_missing H C h ob k keys t g = (r, h1)"
    by (cases "resolve_missing H C h ob k keys t g")
  from resolve_missing_quiet [OF assms(1), of H h ob k keys t g] rm have h1: "h1 = h" by simp
  show ?thesis
  proof (cases r)
    case (Inl e)
    have "\<exists>m. e = TypeError m" if "\<not> c_validate C"
    proof (cases "resolve (c_operation C) = Bool True")
      case True
      with assms(1) rm Inl show ?thesis by (simp add: resolve_missing_plain)
    next
      case False
      with rm Inl that show ?thesis by (auto dest: resolve_missing_error)
    qed
    with rm Inl h1 assms(2) show ?thesis by (auto simp: descend_def)
  next
    case (Inr g')
    with rm h1 assms(2) show ?thesis
      by (auto simp: descend_def split: sum.splits if_splits dest: get_prop_error)
  qed
qed

lemma descend_ext:
  assumes "descend H C h ob k keys t fragment g = R" "sep B L h" "loose B L ob"
    and "host_in H B" "proto_local H"
  shows "(\<exists>e h1. R = Inl (Inl e, h1) \<and> extends B L h h1)
       \<or> (\<exists>w'. R = Inr w' \<and> extends B L h (w_heap w') \<and> w_keys w' = keys \<and> w_t w' = t
                \<and> loose B L (w_obj w'))"
proof -
  obtain r h1 where rm: "resolve_missing H C h ob k keys t g = (r, h1)"
    by (cases "resolve_missing H C h ob k keys t g")
  from resolve_missing_ext [OF rm assms(2,3,5)] have e: "extends B L h h1" .
  then have s1: "closed B L h1" by (simp add: extends_def)
  show ?thesis
  proof (cases r)
    case (Inl e')
    with rm assms(1) e show ?thesis by (auto simp: descend_def)
  next
    case (Inr g')
    show ?thesis
    proof (cases "get_prop H h1 ob k")
      case (Inl e')
      with rm Inr assms(1) e show ?thesis by (auto simp: descend_def)
    next
      case gp: (Inr ob')
      from get_prop_loose [OF s1 assms(4,3) gp] have "loose B L ob'" .
      with rm Inr gp assms(1) e show ?thesis by (auto simp: descend_def split: if_splits)
    qed
  qed
qed

subsection \<open>The prototype guard\<close>

lemma no_tilde:
  "indexOf ''__proto__'' ''~'' = -1" "indexOf ''prototype'' ''~'' = -1"
  "indexOf ''constructor'' ''~'' = -1"
  by code_simp+

lemma banned_now: "banned_at keys t \<Longrightarrow> banned_key keys t (current_key keys t)"
  by (auto simp: banned_at_def banned_key_def current_key_def nth_key_def no_tilde)

lemma constructor_key:
  "t < length keys \<Longrightarrow> keys ! t = ''constructor'' \<Longrightarrow> current_key keys t = KStr ''constructor''"
  by (simp add: current_key_def nth_key_def no_tilde)

lemma banned_ahead_next:
  assumes "banned_ahead w" "\<not> banned_key (w_keys w) (w_t w) (current_key (w_keys w) (w_t w))"
    and "keys' = w_keys w
       \<or> ((\<exists>s. keys' = (w_keys w)[w_t w := s])
          \<and> (current_key (w_keys w) (w_t w) = KStr ''-'' \<or> current_key (w_keys w) (w_t w) = KStr ''--''))"
  shows "\<exists>j. Suc (w_t w) \<le> j \<and> banned_at keys' j"
proof -
  from assms(1) obtain j where j: "w_t w \<le> j" "banned_at (w_keys w) j"
    by (auto simp: banned_ahead_def)
  with assms(2) have "j \<noteq> w_t w" by (auto dest: banned_now)
  with j(1) have lt: "Suc (w_t w) \<le> j" by simp
  have "banned_at keys' j"
  proof (cases "keys' = w_keys w")
    case True with j(2) show ?thesis by simp
  next
    case False
    with assms(3) obtain s where s: "keys' = (w_keys w)[w_t w := s]"
      and k: "current_key (w_keys w) (w_t w) = KStr ''-'' \<or> current_key (w_keys w) (w_t w) = KStr ''--''"
      by blast
    have "(w_keys w) ! (j - 1) \<noteq> ''constructor''" if "j - 1 = w_t w"
    proof
      assume c: "(w_keys w) ! (j - 1) = ''constructor''"
      from j(2) lt that have "w_t w < length (w_keys w)" by (simp add: banned_at_def)
      from constructor_key [OF this] c that k show False by simp
    qed
    with j(2) lt s show ?thesis by (auto simp: banned_at_def nth_list_update)
  qed
  with lt show ?thesis by blast
qed

lemma banned_step:
  assumes "c_ban C" "banned_ahead w" "step H objT arrT C w = R"
  obtains
    (stop) e where "R = Inl (Inl e, w_heap w)"
      "\<not> c_validate C \<Longrightarrow> op (c_operation C) \<noteq> ''x'' \<Longrightarrow> \<exists>m. e = TypeError m"
  | (inner) k keys' fragment g where
      "R = descend H C (w_heap w) (w_obj w) k keys' (Suc (w_t w)) fragment g"
      "\<exists>j. Suc (w_t w) \<le> j \<and> banned_at keys' j"
  using assms(3)
proof (cases rule: step_cases)
  case banned
  with stop show ?thesis by blast
next
  case (error e)
  with stop show ?thesis by blast
next
  case (last_array k keys' g)
  from assms(2) obtain j where "w_t w \<le> j" "banned_at (w_keys w) j" by (auto simp: banned_ahead_def)
  with last_array(2) have "banned_at (w_keys w) (w_t w)" by (cases "j = w_t w") (auto simp: banned_at_def)
  with last_array(1) assms(1) show ?thesis by (auto dest: banned_now)
next
  case last_object
  from assms(2) obtain j where "w_t w \<le> j" "banned_at (w_keys w) j" by (auto simp: banned_ahead_def)
  with last_object(2) have "banned_at (w_keys w) (w_t w)" by (cases "j = w_t w") (auto simp: banned_at_def)
  with last_object(1) assms(1) show ?thesis by (auto dest: banned_now)
next
  case (inner k keys' fragment g)
  from inner(1) assms(1) have nb: "\<not> banned_key (w_keys w) (w_t w) (current_key (w_keys w) (w_t w))"
    by simp
  from inner(4) have "keys' = w_keys w
       \<or> ((\<exists>s. keys' = (w_keys w)[w_t w := s])
          \<and> (current_key (w_keys w) (w_t w) = KStr ''-'' \<or> current_key (w_keys w) (w_t w) = KStr ''--''))"
    by blast
  from banned_ahead_next [OF assms(2) nb this] inner(3) show ?thesis
    using that(2) by blast
qed

text \<open>A traversal with a banned component ahead ends with an error.  It has written
  nothing unless it is an extended operation that resolves; and then it has kept the
  caller's cells.\<close>

lemma walk_banned:
  assumes "c_ban C" "banned_ahead w"
  shows "\<exists>e h'. walk_loop H objT arrT C w = (Inl e, h')"
proof -
  have "\<exists>w'. banned_ahead w' \<and> step H objT arrT C w' = Inl (walk_loop H objT arrT C w)"
  proof (rule walk_ends [where P = banned_ahead])
    show "banned_ahead w" by (rule assms(2))
  next
    fix v v' assume ba: "banned_ahead v" and st: "step H objT arrT C v = Inr v'"
    from assms(1) ba st show "banned_ahead v'"
    proof (cases rule: banned_step [where w = v and R = "Inr v'"])
      case (inner k keys' fragment g)
      from descend_walk [OF inner(1) [symmetric]] inner(2)
      show ?thesis by (auto simp: banned_ahead_def)
    qed auto
  qed
  then obtain w' where ba: "banned_ahead w'"
    and st: "step H objT arrT C w' = Inl (walk_loop H objT arrT C w)"
    by blast
  from assms(1) ba st show ?thesis
  proof (cases rule: banned_step [where w = w' and R = "Inl (walk_loop H objT arrT C w)"])
    case (stop e)
    then show ?thesis by auto
  next
    case (inner k keys' fragment g)
    from descend_error [OF inner(1) [symmetric]] show ?thesis by auto
  qed
qed

lemma walk_banned_quiet:
  assumes "c_ban C" "banned_ahead w"
    and "op (c_operation C) \<noteq> ''x'' \<or> resolve (c_operation C) \<noteq> Bool True"
  shows "\<exists>e. walk_loop H objT arrT C w = (Inl e, w_heap w)
           \<and> (\<not> c_validate C \<and> op (c_operation C) \<noteq> ''x'' \<longrightarrow> (\<exists>m. e = TypeError m))"
proof -
  let ?P = "\<lambda>v. banned_ahead v \<and> w_heap v = w_heap w"
  have "\<exists>w'. ?P w' \<and> step H objT arrT C w' = Inl (walk_loop H objT arrT C w)"
  proof (rule walk_ends [where P = ?P])
    show "?P w" using assms(2) by simp
  next
    fix v v' assume P: "?P v" and st: "step H objT arrT C v = Inr v'"
    from P have ba: "banned_ahead v" by simp
    from assms(1) ba st show "?P v'"
    proof (cases rule: banned_step [where w = v and R = "Inr v'"])
      case (inner k keys' fragment g)
      from descend_quiet [OF assms(3) inner(1) [symmetric]] inner(2) P
      show ?thesis by (auto simp: banned_ahead_def)
    qed auto
  qed
  then obtain w' where P: "?P w'" and st: "step H objT arrT C w' = Inl (walk_loop H objT arrT C w)"
    by blast
  from P have ba: "banned_ahead w'" by simp
  from assms(1) ba st show ?thesis
  proof (cases rule: banned_step [where w = w' and R = "Inl (walk_loop H objT arrT C w)"])
    case (stop e)
    with P show ?thesis by auto
  next
    case (inner k keys' fragment g)
    from descend_quiet [OF assms(3) inner(1) [symmetric]] P show ?thesis by auto
  qed
qed

lemma walk_banned_ext:
  assumes "c_ban C" "banned_ahead w" "sep B L (w_heap w)" "loose B L (w_obj w)"
    and "host_in H B" "proto_local H"
  shows "\<exists>e h'. walk_loop H objT arrT C w = (Inl e, h') \<and> extends B L (w_heap w) h'"
proof -
  let ?P = "\<lambda>v. banned_ahead v \<and> extends B L (w_heap w) (w_heap v) \<and> loose B L (w_obj v)"
  have "\<exists>w'. ?P w' \<and> step H objT arrT C w' = Inl (walk_loop H objT arrT C w)"
  proof (rule walk_ends [where P = ?P])
    show "?P w" using assms(2,3,4) by (simp add: ext_refl)
  next
    fix v v' assume P: "?P v" and st: "step H objT arrT C v = Inr v'"
    from P have ba: "banned_ahead v" by simp
    from assms(1) ba st show "?P v'"
    proof (cases rule: banned_step [where w = v and R = "Inr v'"])
      case (inner k keys' fragment g)
      from P have "sep B L (w_heap v)" "loose B L (w_obj v)"
        by (auto dest: ext_sep)
      from descend_ext [OF inner(1) [symmetric] this assms(5,6)]
      have d: "extends B L (w_heap v) (w_heap v')" "w_keys v' = keys'" "w_t v' = Suc (w_t v)"
        "loose B L (w_obj v')" by auto
      from P d(1) have "extends B L (w_heap w) (w_heap v')" by (blast intro: ext_trans)
      with d inner(2) show ?thesis by (simp add: banned_ahead_def)
    qed auto
  qed
  then obtain w' where P: "?P w'" and st: "step H objT arrT C w' = Inl (walk_loop H objT arrT C w)"
    by blast
  from P have ba: "banned_ahead w'" by simp
  from assms(1) ba st show ?thesis
  proof (cases rule: banned_step [where w = w' and R = "Inl (walk_loop H objT arrT C w)"])
    case (stop e)
    with P show ?thesis by auto
  next
    case (inner k keys' fragment g)
    from P have "sep B L (w_heap w')" "loose B L (w_obj w')"
      by (auto dest: ext_sep)
    from descend_ext [OF inner(1) [symmetric] this assms(5,6)]
    obtain e h1 where d: "walk_loop H objT arrT C w = (Inl e, h1)" "extends B L (w_heap w') h1" by auto
    from P d(2) have "extends B L (w_heap w) h1" by (blast intro: ext_trans)
    with d(1) show ?thesis by blast
  qed
qed

lemma banned_path_ahead:
  assumes "path operation = Some p" "banned_path p"
  shows "banned_ahead (walk_of h operation ob)"
  using assms by (auto simp: banned_path_def banned_ahead_def walk_of_def)

lemma banned_path_nonempty: "banned_path p \<Longrightarrow> p \<noteq> []"
  by (auto simp: banned_path_def)

subsection \<open>The nested regime\<close>

lemma host_cells_closed: "host_cells B h \<Longrightarrow> closed B (length h) h"
  unfolding closed_def
proof (intro allI impI ballI)
  fix a v
  assume hc: "host_cells B h" and a: "a < length h" "a \<in> B \<or> length h \<le> a"
    and v: "v \<in> set (cell_vals (h ! a))"
  from a have "a \<in> B" by auto
  with hc v have "case addr_of v of Some b \<Rightarrow> b \<in> B | None \<Rightarrow> True"
    by (auto simp: host_cells_def)
  then show "loose B (length h) v" by (auto simp: loose_def split: option.splits)
qed


lemma host_region_sep: "host_region H B h \<Longrightarrow> sep B (length h) h"
  by (simp add: host_region_def sep_def host_cells_closed)


lemma working_on_grows: "working_on mut h d0 h1 d \<Longrightarrow> grows h h1"
  by (auto simp: working_on_def dest: deepClone_grows split: if_splits)

lemma working_on_ext:
  assumes "working_on mut h d0 h1 d" "sep B L h" "\<forall>a. d0 \<noteq> Fun a"
  shows "extends B L h h1 \<and> (loose B L d \<or> (\<forall>a. d \<noteq> Fun a))"
proof (cases mut)
  case True
  with assms show ?thesis by (simp add: working_on_def ext_refl)
next
  case False
  with assms(1) have c: "deepClone h d0 = (Inr d, h1)" by (simp add: working_on_def)
  from assms(3) have "loose B L d0 \<or> (\<forall>a. d0 \<noteq> Fun a)" by simp
  from ext_clone [OF c assms(2) this] show ?thesis by simp
qed

lemma nested_cases:
  assumes "nested_operation self vd H reg h document operation vm mut ban i = R"
  obtains
    (clone_failed) e h1 where "\<not> mut" "deepClone h document = (Inl e, h1)" "R = (Inl e, h1)"
  | (unregistered) d h1 where "working_on mut h document h1 d" "op operation = ''x''"
      "registry_get reg (xid operation) = None" "R = (Inl (thrown OPERATION_X_OP_INVALID i), h1)"
  | (clone2_failed) d h1 cfg e h2 where "working_on mut h document h1 d" "op operation = ''x''"
      "registry_get reg (xid operation) = Some cfg" "deepClone h1 d = (Inl e, h2)" "R = (Inl e, h2)"
  | (plain) d h1 where "working_on mut h document h1 d" "op operation \<noteq> ''x''"
      "R = walk_loop H (objOps self H) (arrOps self H)
             (ctx_of operation vm vd mut ban i d d None) (walk_of h1 operation d)"
  | (extended) d h1 cfg wd h2 where "working_on mut h document h1 d" "op operation = ''x''"
      "registry_get reg (xid operation) = Some cfg" "deepClone h1 d = (Inr wd, h2)"
      "R = walk_loop H (objOps self H) (arrOps self H)
             (ctx_of operation vm vd mut ban i d wd (Some cfg)) (walk_of h2 operation wd)"
proof -
  obtain r1 h1 where c1: "(if \<not> mut then deepClone h document else (Inr document, h)) = (r1, h1)"
    by (cases "if \<not> mut then deepClone h document else (Inr document, h)")
  show ?thesis
  proof (cases r1)
    case (Inl e)
    with c1 have "\<not> mut" "deepClone h document = (Inl e, h1)" by (auto split: if_splits)
    moreover from Inl c1 assms have "R = (Inl e, h1)" by (simp add: nested_operation_def)
    ultimately show ?thesis by (rule clone_failed)
  next
    case (Inr d)
    with c1 have wo: "working_on mut h document h1 d"
      by (auto simp: working_on_def split: if_splits)
    show ?thesis
    proof (cases "op operation = ''x''")
      case False
      with c1 Inr assms
      have "R = walk_loop H (objOps self H) (arrOps self H)
             (ctx_of operation vm vd mut ban i d d None) (walk_of h1 operation d)"
        by (simp add: nested_operation_def Let_def ctx_of_def walk_of_def)
      with wo False show ?thesis by (rule plain)
    next
      case x: True
      show ?thesis
      proof (cases "registry_get reg (xid operation)")
        case None
        with c1 Inr x assms have "R = (Inl (thrown OPERATION_X_OP_INVALID i), h1)"
          by (simp add: nested_operation_def Let_def)
        with wo x None show ?thesis by (rule unregistered)
      next
        case (Some cfg)
        obtain r2 h2 where c2: "deepClone h1 d = (r2, h2)" by (cases "deepClone h1 d")
        show ?thesis
        proof (cases r2)
          case (Inl e)
          with c1 Inr x Some c2 assms have "R = (Inl e, h2)"
            by (simp add: nested_operation_def Let_def)
          with wo x Some c2 [unfolded Inl] show ?thesis by (rule clone2_failed)
        next
          case wd: (Inr wd)
          with c1 Inr x Some c2 assms
          have "R = walk_loop H (objOps self H) (arrOps self H)
             (ctx_of operation vm vd mut ban i d wd (Some cfg)) (walk_of h2 operation wd)"
            by (simp add: nested_operation_def Let_def ctx_of_def walk_of_def)
          with wo x Some c2 [unfolded wd] show ?thesis by (rule extended)
        qed
      qed
    qed
  qed
qed

lemma ctx_of_simps [simp]:
  "c_operation (ctx_of operation vm vd mut ban i d wd cfg) = operation"
  "c_validate (ctx_of operation vm vd mut ban i d wd cfg) = validating vm"
  "c_mutate (ctx_of operation vm vd mut ban i d wd cfg) = mut"
  "c_ban (ctx_of operation vm vd mut ban i d wd cfg) = ban"
  "c_index (ctx_of operation vm vd mut ban i d wd cfg) = i"
  "c_document (ctx_of operation vm vd mut ban i d wd cfg) = d"
  "c_working (ctx_of operation vm vd mut ban i d wd cfg) = wd"
  "c_xconfig (ctx_of operation vm vd mut ban i d wd cfg) = cfg"
  by (simp_all add: ctx_of_def)

lemma walk_of_simps [simp]:
  "w_heap (walk_of h operation wd) = h"
  "w_obj (walk_of h operation wd) = wd"
  "w_t (walk_of h operation wd) = 1"
  "w_keys (walk_of h operation wd) = split_slash (case path operation of None \<Rightarrow> [] | Some p \<Rightarrow> p)"
  by (simp_all add: walk_of_def)

text \<open>The nested regime on a path with a banned component.\<close>

lemma nested_banned_error:
  assumes "path operation = Some p" "banned_path p"
  shows "\<exists>e h'. nested_operation self vd H reg h document operation vm mut True i = (Inl e, h')"
proof -
  obtain r h' where R: "nested_operation self vd H reg h document operation vm mut True i = (r, h')"
    by (cases "nested_operation self vd H reg h document operation vm mut True i")
  from R have "\<exists>e. r = Inl e"
  proof (cases rule: nested_cases)
    case (plain d h1)
    from walk_banned [of "ctx_of operation vm vd mut True i d d None" "walk_of h1 operation d"
                         H "objOps self H" "arrOps self H"]
      banned_path_ahead [OF assms] plain(3)
    show ?thesis by auto
  next
    case (extended d h1 cfg wd h2)
    from walk_banned [of "ctx_of operation vm vd mut True i d wd (Some cfg)" "walk_of h2 operation wd"
                         H "objOps self H" "arrOps self H"]
      banned_path_ahead [OF assms] extended(5)
    show ?thesis by auto
  qed auto
  with R show ?thesis by auto
qed

lemma nested_banned_quiet:
  assumes "path operation = Some p" "banned_path p"
    and "op operation \<noteq> ''x'' \<or> resolve operation \<noteq> Bool True"
    and "nested_operation self vd H reg h document operation vm mut True i = (r, h')"
  shows "grows h h' \<and> (op operation \<noteq> ''x'' \<and> mut \<longrightarrow> h' = h)
       \<and> (vm = NoValidation \<and> op operation \<noteq> ''x'' \<longrightarrow> (\<exists>m. r = Inl (TypeError m)))"
  using assms(4)
proof (cases rule: nested_cases)
  case (clone_failed e h1)
  from deepClone_grows [OF clone_failed(2)] deepClone_error [OF clone_failed(2)] clone_failed(1,3)
  show ?thesis by auto
next
  case (unregistered d h1)
  from working_on_grows [OF unregistered(1)] unregistered(2,4) show ?thesis by auto
next
  case (clone2_failed d h1 cfg e h2)
  from working_on_grows [OF clone2_failed(1)] deepClone_grows [OF clone2_failed(4)]
  have "grows h h2" by (blast intro: grows_trans)
  with clone2_failed(2,5) show ?thesis by auto
next
  case (plain d h1)
  from walk_banned_quiet [of "ctx_of operation vm vd mut True i d d None" "walk_of h1 operation d"
                         H "objOps self H" "arrOps self H"]
    banned_path_ahead [OF assms(1,2)] plain(2,3)
  obtain e where e: "r = Inl e" "h' = h1" "\<not> validating vm \<longrightarrow> (\<exists>m. e = TypeError m)"
    by auto
  from plain(1) have "mut \<longrightarrow> h1 = h" by (simp add: working_on_def)
  with e working_on_grows [OF plain(1)] show ?thesis by (auto simp: validating_def)
next
  case (extended d h1 cfg wd h2)
  from walk_banned_quiet [of "ctx_of operation vm vd mut True i d wd (Some cfg)" "walk_of h2 operation wd"
                         H "objOps self H" "arrOps self H"]
    banned_path_ahead [OF assms(1,2)] extended(2,5) assms(3)
  have h': "h' = h2" by auto
  from working_on_grows [OF extended(1)] deepClone_grows [OF extended(4)]
  have "grows h h2" by (blast intro: grows_trans)
  with h' extended(2) show ?thesis by auto
qed

lemma nested_banned_first:
  assumes "path operation = Some p" "banned_at (split_slash p) 1" "op operation \<noteq> ''x''"
    and "nested_operation self vd H reg h document operation vm mut True i = (r, h')"
  shows "r = Inl (TypeError PROTO_ERROR_MSG)
       \<or> (\<not> mut \<and> (\<exists>e. r = Inl e \<and> deepClone h document = (Inl e, h')))"
  using assms(4)
proof (cases rule: nested_cases)
  case (clone_failed e h1)
  then show ?thesis by auto
next
  case (plain d h1)
  define C where "C = ctx_of operation vm vd mut True i d d None"
  define w where "w = walk_of h1 operation d"
  from banned_now [OF assms(2)] assms(1)
  have "step H (objOps self H) (arrOps self H) C w = Inl (Inl (TypeError PROTO_ERROR_MSG), h1)"
    by (simp add: step_def C_def w_def)
  then have "walk_loop H (objOps self H) (arrOps self H) C w = (Inl (TypeError PROTO_ERROR_MSG), h1)"
    by (subst walk_loop.simps) simp
  with plain(3) show ?thesis by (simp add: C_def w_def)
qed (use assms(3) in auto)

lemma nested_banned_kept:
  assumes "path operation = Some p" "banned_path p"
    and "host_region H B h" "\<forall>a. document \<noteq> Fun a"
    and "nested_operation self vd H reg h document operation vm mut True i = (r, h')"
  shows "kept B (length h) h h'"
proof -
  from assms(3) have sp: "sep B (length h) h" by (rule host_region_sep)
  from assms(3) have hp: "host_in H B" "proto_local H" by (simp_all add: host_region_def)
  from assms(5) show ?thesis
  proof (cases rule: nested_cases)
    case (clone_failed e h1)
    from deepClone_grows [OF clone_failed(2)] clone_failed(3) show ?thesis
      by (auto intro: grows_kept)
  next
    case (unregistered d h1)
    from working_on_grows [OF unregistered(1)] unregistered(4) show ?thesis
      by (auto intro: grows_kept)
  next
    case (clone2_failed d h1 cfg e h2)
    from working_on_grows [OF clone2_failed(1)] deepClone_grows [OF clone2_failed(4)]
    have "grows h h2" by (blast intro: grows_trans)
    with clone2_failed(5) show ?thesis by (auto intro: grows_kept)
  next
    case (plain d h1)
    from walk_banned_quiet [of "ctx_of operation vm vd mut True i d d None" "walk_of h1 operation d"
                           H "objOps self H" "arrOps self H"]
      banned_path_ahead [OF assms(1,2)] plain(2,3)
    have "h' = h1" by auto
    with working_on_grows [OF plain(1)] show ?thesis by (auto intro: grows_kept)
  next
    case (extended d h1 cfg wd h2)
    from working_on_ext [OF extended(1) sp assms(4)]
    have e1: "extends B (length h) h h1" and d: "loose B (length h) d \<or> (\<forall>a. d \<noteq> Fun a)"
      by simp_all
    from ext_clone [OF extended(4) ext_sep [OF e1] d]
    have e2: "extends B (length h) h1 h2" and wd: "loose B (length h) wd" by simp_all
    from e1 e2 have e12: "extends B (length h) h h2" by (rule ext_trans)
    from walk_banned_ext [of "ctx_of operation vm vd mut True i d wd (Some cfg)"
                            "walk_of h2 operation wd" B "length h" H "objOps self H" "arrOps self H"]
      banned_path_ahead [OF assms(1,2)] ext_sep [OF e12] wd hp extended(5)
    have "extends B (length h) h2 h'" by auto
    with e12 have "extends B (length h) h h'" by (rule ext_trans)
    then show ?thesis by (rule ext_kept)
  qed
qed

subsection \<open>Extended operations walk in the working clone\<close>




















section \<open>The claims\<close>

text \<open>
  C10.  For a string that is not a well-formed extended-operation identifier (length at
  least 3, beginning with \<open>x-\<close>), \<open>hasExtendedOperation\<close> does not return \<open>false\<close>: it
  throws an \<open>OPERATION_X_ID_INVALID\<close> error.  It returns a boolean, whether the
  identifier is registered, exactly for the well-formed identifiers.
\<close>

theorem hasExtendedOperation_malformed_throws:
  "(\<not> (3 \<le> length s \<and> prefix ''x-'' s) \<longrightarrow>
      hasExtendedOperation reg (Str s) = Inl (JsonPatchError OPERATION_X_ID_INVALID None))
   \<and> (3 \<le> length s \<and> prefix ''x-'' s \<longrightarrow>
      hasExtendedOperation reg (Str s) = Inr (reg s \<noteq> None))"
  by (cases "reg s")
     (auto simp: hasExtendedOperation_def isValidExtendedOpId_def indexOf_zero registry_get_def)

theorem hasExtendedOperation_malformed_throws_witness:
  "\<not> (3 \<le> length ''rm'' \<and> prefix ''x-'' ''rm'')
   \<and> hasExtendedOperation reg_rm (Str ''rm'') = Inl (JsonPatchError OPERATION_X_ID_INVALID None)
   \<and> (3 \<le> length ''x-rm'' \<and> prefix ''x-'' ''x-rm'')
   \<and> hasExtendedOperation reg_rm (Str ''x-rm'') = Inr True"
proof -
  have a: "\<not> (3 \<le> length ''rm'' \<and> prefix ''x-'' ''rm'')" by simp
  have b: "3 \<le> length ''x-rm'' \<and> prefix ''x-'' ''x-rm''" by simp
  have c: "reg_rm ''x-rm'' \<noteq> None" by (simp add: reg_rm_def)
  from a b c hasExtendedOperation_malformed_throws [of "''rm''" reg_rm]
    hasExtendedOperation_malformed_throws [of "''x-rm''" reg_rm]
  show ?thesis by simp
qed

text \<open>
  C5.  \<open>validate\<close> returns every failure of the library's error class as a value
  and never raises one; every other failure is raised to the caller.  Here
  \<open>validate_attempt\<close> is the body of the \<open>try\<close> block: the structural checks, or the
  dry run of the whole sequence on clones when a document is given.
\<close>

theorem validate_returns_domain_errors:
  "(validate_attempt (applyOperation H reg) (validator H reg) h sequence document ext
      = Some (JsonPatchError name i)
    \<longrightarrow> validate H reg h sequence document ext = Inr (Some (JsonPatchError name i)))
   \<and> (validate_attempt (applyOperation H reg) (validator H reg) h sequence document ext = Some e
      \<and> (\<forall>name i. e \<noteq> JsonPatchError name i)
    \<longrightarrow> validate H reg h sequence document ext = Inl e)
   \<and> (validate_attempt (applyOperation H reg) (validator H reg) h sequence document ext = None
    \<longrightarrow> validate H reg h sequence document ext = Inr None)
   \<and> (\<forall>name i. validate H reg h sequence document ext \<noteq> Inl (JsonPatchError name i))"
  by (auto simp: validate_def validate_with_def split: option.splits error.splits)

text \<open>The scenario of the specification, \<open>replace /missing\<close> against \<open>{}\<close>, and a
  failure that is not the library's: a document that contains itself.\<close>

theorem validate_returns_domain_errors_witness:
  "validate_attempt (applyOperation host0 Map.empty) (validator host0 Map.empty) [Obj []]
      [plain_op ''replace'' (Some ''/missing'') (Num 1)] (Ref 0) None
     = Some (JsonPatchError OPERATION_PATH_UNRESOLVABLE (Some 0))
   \<and> validate host0 Map.empty [Obj []] [plain_op ''replace'' (Some ''/missing'') (Num 1)] (Ref 0) None
     = Inr (Some (JsonPatchError OPERATION_PATH_UNRESOLVABLE (Some 0)))
   \<and> validate_attempt (applyOperation host0 Map.empty) (validator host0 Map.empty)
      [Obj [(''self'', Ref 0)]] [plain_op ''replace'' (Some ''/missing'') (Num 1)] (Ref 0) None
     = Some (TypeError ''Converting circular structure to JSON'')
   \<and> validate host0 Map.empty [Obj [(''self'', Ref 0)]]
      [plain_op ''replace'' (Some ''/missing'') (Num 1)] (Ref 0) None
     = Inl (TypeError ''Converting circular structure to JSON'')"
proof -
  have a: "validate_attempt (applyOperation host0 Map.empty) (validator host0 Map.empty) [Obj []]
      [plain_op ''replace'' (Some ''/missing'') (Num 1)] (Ref 0) None
     = Some (JsonPatchError OPERATION_PATH_UNRESOLVABLE (Some 0))"
    by code_simp
  have b: "validate_attempt (applyOperation host0 Map.empty) (validator host0 Map.empty)
      [Obj [(''self'', Ref 0)]] [plain_op ''replace'' (Some ''/missing'') (Num 1)] (Ref 0) None
     = Some (TypeError ''Converting circular structure to JSON'')"
    by code_simp
  from a validate_returns_domain_errors
         [of host0 Map.empty "[Obj []]" "[plain_op ''replace'' (Some ''/missing'') (Num 1)]" "Ref 0" None]
  have c: "validate host0 Map.empty [Obj []] [plain_op ''replace'' (Some ''/missing'') (Num 1)] (Ref 0) None
     = Inr (Some (JsonPatchError OPERATION_PATH_UNRESOLVABLE (Some 0)))"
    by blast
  from b validate_returns_domain_errors
         [of host0 Map.empty "[Obj [(''self'', Ref 0)]]"
             "[plain_op ''replace'' (Some ''/missing'') (Num 1)]" "Ref 0" None _ _
             "TypeError ''Converting circular structure to JSON''"]
  have d: "validate host0 Map.empty [Obj [(''self'', Ref 0)]]
      [plain_op ''replace'' (Some ''/missing'') (Num 1)] (Ref 0) None
     = Inl (TypeError ''Converting circular structure to JSON'')"
    by blast
  from a b c d show ?thesis by blast
qed

text \<open>
  C1.  A \<open>test\<close> operation is to succeed whenever the value at its path is deep-equal to
  its value.  The document \<open>{"a": {"hasOwnProperty": 1}}\<close> tested at \<open>/a\<close> against a
  separate, equal object \<open>{"hasOwnProperty": 1}\<close> does not succeed: \<open>_areEquals\<close> calls
  \<open>b.hasOwnProperty(...)\<close> on the operand itself, whose own property of that name is not a
  function, and the host throws a TypeError.
\<close>

theorem test_own_hasOwnProperty_throws:
  "applyOperation host0 Map.empty
     [Obj [(''hasOwnProperty'', Num 1)], Obj [(''a'', Ref 0)], Obj [(''hasOwnProperty'', Num 1)]]
     (Ref 1) (plain_op ''test'' (Some ''/a'') (Ref 2)) NoValidation True True 0
   = (Inl (TypeError ''b.hasOwnProperty is not a function''),
      [Obj [(''hasOwnProperty'', Num 1)], Obj [(''a'', Ref 0)], Obj [(''hasOwnProperty'', Num 1)]])"
  by code_simp

text \<open>
  C7.  With \<open>resolve\<close> true and a handler result that carries a removed value, the
  operation is to fail with \<open>OPERATION_X_AMBIGUOUS_REMOVAL\<close> in a list and in a map alike.
  In the list \<open>[1]\<close> at \<open>/0\<close> it does; in the map \<open>{"a": 1}\<close> at \<open>/a\<close> it returns the
  handler's result, removed value included.
\<close>

theorem ambiguous_removal_not_checked_in_maps:
  "applyOperation host0 reg_rm [Arr [Num 1] []] (Ref 0) (x_op ''x-rm'' ''/0'' (Bool True))
     NoValidation False True 0
   = (Inl (JsonPatchError OPERATION_X_AMBIGUOUS_REMOVAL (Some 0)),
      [Arr [Num 1] [], Arr [Num 1] [], Arr [Undefined] []])
   \<and> applyOperation host0 reg_rm [Obj [(''a'', Num 1)]] (Ref 0) (x_op ''x-rm'' ''/a'' (Bool True))
     NoValidation False True 0
   = (Inr \<lparr>newDocument = Ref 2, removed = Num 1, test = None, index = None, value_out = Undefined\<rparr>,
      [Obj [(''a'', Num 1)], Obj [(''a'', Num 1)], Obj []])"
  by code_simp

text \<open>
  C8.  An extended operation at the root path makes no traversal.  When \<open>resolve\<close> is
  true, the handler for map containers (never the one for lists) is called with the empty
  key on the document, or on its deep clone when the document is not to be mutated, and
  its result is returned, or the original document when it returns \<open>undefined\<close>.  When
  \<open>resolve\<close> is not true, no handler is called and the \<open>value\<close> of the operation is
  returned as the new document; when the document is not to be mutated it is cloned all
  the same, and a failure of the clone is raised.  The hypothesis on \<open>initial_validation\<close>
  says that the check before the dispatch does not throw.
\<close>

theorem root_extended_operation:
  assumes "path operation = Some []" "op operation = ''x''"
    and "registry_get reg (xid operation) = Some xConfig"
    and "initial_validation (validator H reg) h document operation vm = None"
  shows "(resolve operation = Bool True \<longrightarrow>
            applyOperation H reg h document operation vm True ban i =
              (case x_obj xConfig h operation document (KStr []) document of
                 (Inl e, h2) \<Rightarrow> (Inl e, h2)
               | (Inr HUndefined, h2) \<Rightarrow> (Inr (result_of operation document), h2)
               | (Inr (HResult nd rm), h2) \<Rightarrow> (Inr (hres_result operation nd rm), h2)))
       \<and> (resolve operation = Bool True \<longrightarrow>
            applyOperation H reg h document operation vm False ban i =
              (case deepClone h document of
                 (Inl e, h1) \<Rightarrow> (Inl e, h1)
               | (Inr workingDocument, h1) \<Rightarrow>
                   (case x_obj xConfig h1 operation workingDocument (KStr []) workingDocument of
                      (Inl e, h2) \<Rightarrow> (Inl e, h2)
                    | (Inr HUndefined, h2) \<Rightarrow> (Inr (result_of operation document), h2)
                    | (Inr (HResult nd rm), h2) \<Rightarrow> (Inr (hres_result operation nd rm), h2))))
       \<and> (resolve operation \<noteq> Bool True \<longrightarrow>
            applyOperation H reg h document operation vm True ban i =
              (Inr (result_of operation (op_value operation)), h))
       \<and> (resolve operation \<noteq> Bool True \<longrightarrow>
            applyOperation H reg h document operation vm False ban i =
              (case deepClone h document of
                 (Inl e, h1) \<Rightarrow> (Inl e, h1)
               | (Inr workingDocument, h1) \<Rightarrow>
                   (Inr (result_of operation (op_value operation)), h1)))"
  using assms
  by (subst (1 2 3 4) applyOperation_unfold)
     (simp add: applyOperation_body_def root_operation_def Let_def split: prod.splits sum.splits)

text \<open>The handler would return the document; without \<open>resolve\<close> the operation returns
  its own \<open>value\<close>, here \<open>undefined\<close>.\<close>

theorem root_extended_operation_counterexample:
  "fst (applyOperation host0 reg_rm [Obj [(''a'', Num 1)]] (Ref 0) (x_op ''x-rm'' [] (Bool False))
          NoValidation True True 0)
     = Inr (result_of (x_op ''x-rm'' [] (Bool False)) Undefined)
   \<and> fst (removing_handler [Obj [(''a'', Num 1)]] (x_op ''x-rm'' [] (Bool False)) (Ref 0) (KStr []) (Ref 0))
     = Inr (HResult (Ref 0) Undefined)"
  by code_simp

text \<open>With \<open>resolve\<close> the handler's result is returned; without it and without mutation
  the document is cloned and the operation's \<open>value\<close> is returned.\<close>

theorem root_extended_operation_witness:
  "path (x_op ''x-rm'' [] (Bool True)) = Some [] \<and> op (x_op ''x-rm'' [] (Bool True)) = ''x''
   \<and> registry_get reg_rm (xid (x_op ''x-rm'' [] (Bool True)))
       = Some \<lparr>x_arr = removing_handler, x_obj = removing_handler, x_validator = accept_all\<rparr>
   \<and> initial_validation (validator host0 reg_rm) [Obj [(''a'', Num 1)]] (Ref 0)
         (x_op ''x-rm'' [] (Bool True)) NoValidation = None
   \<and> applyOperation host0 reg_rm [Obj [(''a'', Num 1)]] (Ref 0) (x_op ''x-rm'' [] (Bool True))
         NoValidation True True 0
       = (Inr (hres_result (x_op ''x-rm'' [] (Bool True)) (Ref 0) Undefined), [Obj [(''a'', Num 1)]])
   \<and> path (x_op ''x-rm'' [] Undefined) = Some [] \<and> op (x_op ''x-rm'' [] Undefined) = ''x''
   \<and> registry_get reg_rm (xid (x_op ''x-rm'' [] Undefined))
       = Some \<lparr>x_arr = removing_handler, x_obj = removing_handler, x_validator = accept_all\<rparr>
   \<and> initial_validation (validator host0 reg_rm) [Obj [(''a'', Num 1)]] (Ref 0)
         (x_op ''x-rm'' [] Undefined) NoValidation = None
   \<and> applyOperation host0 reg_rm [Obj [(''a'', Num 1)]] (Ref 0) (x_op ''x-rm'' [] Undefined)
         NoValidation False True 0
       = (Inr (result_of (x_op ''x-rm'' [] Undefined) Undefined),
          [Obj [(''a'', Num 1)], Obj [(''a'', Num 1)]])"
proof -
  let ?cfg = "\<lparr>x_arr = removing_handler, x_obj = removing_handler, x_validator = accept_all\<rparr>"
  let ?h = "[Obj [(''a'', Num 1)]]"
  have a: "path (x_op ''x-rm'' [] (Bool True)) = Some []" "op (x_op ''x-rm'' [] (Bool True)) = ''x''"
    by (simp_all add: x_op_def)
  have b: "registry_get reg_rm (xid (x_op ''x-rm'' [] (Bool True))) = Some ?cfg"
    by (simp add: x_op_def registry_get_def reg_rm_def)
  have c: "initial_validation (validator host0 reg_rm) ?h (Ref 0)
         (x_op ''x-rm'' [] (Bool True)) NoValidation = None"
    by (simp add: initial_validation_def)
  have d: "resolve (x_op ''x-rm'' [] (Bool True)) = Bool True" by (simp add: x_op_def)
  have e: "removing_handler ?h (x_op ''x-rm'' [] (Bool True)) (Ref 0) (KStr []) (Ref 0)
           = (Inr (HResult (Ref 0) Undefined), ?h)"
    by code_simp
  from root_extended_operation [OF a b c, of True 0] d e
  have r1: "applyOperation host0 reg_rm ?h (Ref 0) (x_op ''x-rm'' [] (Bool True))
         NoValidation True True 0
       = (Inr (hres_result (x_op ''x-rm'' [] (Bool True)) (Ref 0) Undefined), ?h)"
    by simp
  have a': "path (x_op ''x-rm'' [] Undefined) = Some []" "op (x_op ''x-rm'' [] Undefined) = ''x''"
    by (simp_all add: x_op_def)
  have b': "registry_get reg_rm (xid (x_op ''x-rm'' [] Undefined)) = Some ?cfg"
    by (simp add: x_op_def registry_get_def reg_rm_def)
  have c': "initial_validation (validator host0 reg_rm) ?h (Ref 0)
         (x_op ''x-rm'' [] Undefined) NoValidation = None"
    by (simp add: initial_validation_def)
  have d': "resolve (x_op ''x-rm'' [] Undefined) \<noteq> Bool True"
    "op_value (x_op ''x-rm'' [] Undefined) = Undefined" by (simp_all add: x_op_def)
  have e': "deepClone ?h (Ref 0) = (Inr (Ref 1), [Obj [(''a'', Num 1)], Obj [(''a'', Num 1)]])"
    by code_simp
  from root_extended_operation [OF a' b' c', of True 0] d' e'
  have r2: "applyOperation host0 reg_rm ?h (Ref 0) (x_op ''x-rm'' [] Undefined)
         NoValidation False True 0
       = (Inr (result_of (x_op ''x-rm'' [] Undefined) Undefined),
          [Obj [(''a'', Num 1)], Obj [(''a'', Num 1)]])"
    by simp
  from a b c r1 a' b' c' r2 show ?thesis by blast
qed




text \<open>
  C3.  With the prototype guard on, an operation whose path has a component \<open>__proto__\<close>,
  or a component \<open>prototype\<close> right after a component \<open>constructor\<close>, never returns a
  result: \<open>applyOperation\<close> raises an error.
  \<^item> Unless it is an extended operation with \<open>resolve\<close> true, it writes nothing: the
    store afterwards is the store before, followed by the cells of the clones; a
    standard operation that mutates in place leaves the store as it was.
  \<^item> An extended operation with \<open>resolve\<close> true creates the containers that are missing
    on the way to the banned component, in its working clone or in an object of the host
    that an inherited member such as \<open>constructor\<close> leads to.  For a host whose objects
    are the cells \<open>B\<close> of the store, and a document that is not a function, every other
    cell of the caller's is as it was.
  \<^item> Without validation a standard operation raises a \<open>TypeError\<close>.  When the banned
    component is the first one and the check before the dispatch passes, a standard
    operation raises the guard's own error, unless the clone of a document that is not
    to be mutated fails first.  With validation, or for an extended operation, another
    error can come before the guard's.
\<close>

theorem prototype_guard:
  assumes "path operation = Some p" "banned_path p"
  shows "\<exists>e h'. applyOperation H reg h document operation vm mutateDocument True i = (Inl e, h')
           \<and> (op operation \<noteq> ''x'' \<or> resolve operation \<noteq> Bool True \<longrightarrow> grows h h')
           \<and> (op operation \<noteq> ''x'' \<and> mutateDocument \<longrightarrow> h' = h)
           \<and> (host_region H B h \<and> (\<forall>a. document \<noteq> Fun a) \<longrightarrow> kept B (length h) h h')
           \<and> (vm = NoValidation \<and> op operation \<noteq> ''x'' \<longrightarrow> (\<exists>m. e = TypeError m))
           \<and> (initial_validation (validator H reg) h document operation vm = None
                \<and> op operation \<noteq> ''x'' \<and> banned_at (split_slash p) 1
                \<longrightarrow> e = TypeError PROTO_ERROR_MSG
                    \<or> (\<not> mutateDocument \<and> deepClone h document = (Inl e, h')))"
proof -
  have u: "applyOperation H reg h document operation vm mutateDocument True i
        = applyOperation_body (applyOperation H reg) (validator H reg) H reg
            h document operation vm mutateDocument True i"
    by (subst applyOperation_unfold) (rule refl)
  from assms have ne: "path operation \<noteq> Some []" by (auto dest: banned_path_nonempty)
  show ?thesis
  proof (cases "initial_validation (validator H reg) h document operation vm")
    case (Some e)
    then have "vm \<noteq> NoValidation" by (auto simp: initial_validation_def)
    with Some u show ?thesis by (simp add: applyOperation_body_def kept_refl)
  next
    case None
    with u ne have n: "applyOperation H reg h document operation vm mutateDocument True i
        = nested_operation (applyOperation H reg) (validator H reg) H reg
            h document operation vm mutateDocument True i"
      by (simp add: applyOperation_body_def)
    from nested_banned_error [OF assms]
    obtain e h' where r: "nested_operation (applyOperation H reg) (validator H reg) H reg
            h document operation vm mutateDocument True i = (Inl e, h')"
      by blast
    have q: "grows h h' \<and> (op operation \<noteq> ''x'' \<and> mutateDocument \<longrightarrow> h' = h)
           \<and> (vm = NoValidation \<and> op operation \<noteq> ''x'' \<longrightarrow> (\<exists>m. e = TypeError m))"
      if "op operation \<noteq> ''x'' \<or> resolve operation \<noteq> Bool True"
      using nested_banned_quiet [OF assms that r] by simp
    have k: "kept B (length h) h h'" if "host_region H B h" "\<forall>a. document \<noteq> Fun a"
      using nested_banned_kept [OF assms that r] .
    have f: "e = TypeError PROTO_ERROR_MSG \<or> (\<not> mutateDocument \<and> deepClone h document = (Inl e, h'))"
      if "op operation \<noteq> ''x''" "banned_at (split_slash p) 1"
      using nested_banned_first [OF assms(1) that(2,1) r] by auto
    from n r q k f show ?thesis by auto
  qed
qed

text \<open>With validation enabled, \<open>add\<close> at \<open>/a/__proto__\<close> in \<open>{}\<close> is ended by the inline
  validation at the component \<open>a\<close>, with a \<open>JsonPatchError\<close>, before the guard sees the
  banned component.\<close>

theorem prototype_guard_counterexample:
  "banned_path ''/a/__proto__''
   \<and> applyOperation host0 Map.empty [Obj []] (Ref 0)
        (plain_op ''add'' (Some ''/a/__proto__'') (Bool True)) DefaultValidation True True 0
       = (Inl (JsonPatchError OPERATION_PATH_CANNOT_ADD (Some 0)), [Obj []])"
  by code_simp

text \<open>
  The scenario of the specification, \<open>add\<close> at \<open>/__proto__/polluted\<close> in \<open>{}\<close>.  And an
  extended operation with \<open>resolve\<close> true at \<open>/constructor/foo/__proto__\<close> in \<open>{}\<close>, on
  the host whose \<open>Object\<close> function is the cell 0: the traversal follows the inherited
  \<open>constructor\<close> to that function and creates its property \<open>foo\<close> before the guard
  throws; the document, the cell 1, is as it was.
\<close>

theorem prototype_guard_witness:
  "path (plain_op ''add'' (Some ''/__proto__/polluted'') (Bool True)) = Some ''/__proto__/polluted''
   \<and> banned_path ''/__proto__/polluted''
   \<and> applyOperation host0 Map.empty [Obj []] (Ref 0)
        (plain_op ''add'' (Some ''/__proto__/polluted'') (Bool True)) NoValidation True True 0
       = (Inl (TypeError PROTO_ERROR_MSG), [Obj []])
   \<and> path (x_op ''x-mark'' ''/constructor/foo/__proto__'' (Bool True))
       = Some ''/constructor/foo/__proto__''
   \<and> banned_path ''/constructor/foo/__proto__''
   \<and> host_region host1 {0} [Obj [], Obj []]
   \<and> applyOperation host1 reg_mark [Obj [], Obj []] (Ref 1)
        (x_op ''x-mark'' ''/constructor/foo/__proto__'' (Bool True)) NoValidation True True 0
       = (Inl (TypeError PROTO_ERROR_MSG), [Obj [(''foo'', Ref 3)], Obj [], Obj [], Obj []])
   \<and> kept {0} 2 [Obj [], Obj []] [Obj [(''foo'', Ref 3)], Obj [], Obj [], Obj []]"
proof -
  let ?a = "plain_op ''add'' (Some ''/__proto__/polluted'') (Bool True)"
  let ?x = "x_op ''x-mark'' ''/constructor/foo/__proto__'' (Bool True)"
  have p: "path ?a = Some ''/__proto__/polluted''" by (simp add: plain_op_def)
  have b: "banned_path ''/__proto__/polluted''" by code_simp
  have b1: "banned_at (split_slash ''/__proto__/polluted'') 1" by code_simp
  have o: "op ?a \<noteq> ''x''" by (simp add: plain_op_def)
  have v: "initial_validation (validator host0 Map.empty) [Obj []] (Ref 0) ?a NoValidation = None"
    by (simp add: initial_validation_def)
  from prototype_guard [OF p b, of host0 Map.empty "[Obj []]" "Ref 0" NoValidation True 0] b1 o v
  have r1: "applyOperation host0 Map.empty [Obj []] (Ref 0) ?a NoValidation True True 0
       = (Inl (TypeError PROTO_ERROR_MSG), [Obj []])"
    by auto
  have p': "path ?x = Some ''/constructor/foo/__proto__''" by (simp add: x_op_def)
  have b': "banned_path ''/constructor/foo/__proto__''" by code_simp
  have hr: "host_region host1 {0} [Obj [], Obj []]"
    by (simp add: host_region_def host_in_def proto_local_def host_cells_def host1_def
                  addr_of_def cell_vals_def)
  have d: "\<forall>a. Ref 1 \<noteq> Fun a" by simp
  have r2: "applyOperation host1 reg_mark [Obj [], Obj []] (Ref 1) ?x NoValidation True True 0
       = (Inl (TypeError PROTO_ERROR_MSG), [Obj [(''foo'', Ref 3)], Obj [], Obj [], Obj []])"
    by code_simp
  from prototype_guard [OF p' b', of host1 reg_mark "[Obj [], Obj []]" "Ref 1" NoValidation True 0 "{0}"]
    hr d r2
  have k: "kept {0} 2 [Obj [], Obj []] [Obj [(''foo'', Ref 3)], Obj [], Obj [], Obj []]"
    by (auto simp: numeral_2_eq_2)
  from p b r1 p' b' hr r2 k show ?thesis by blast
qed




end
